theory Spec2Isabelle
  imports Complex_Main
begin

unbundle bit_operations_syntax

section \<open>Module constants of \<^verbatim>\<open>llama_zip.py\<close>\<close>

text \<open>
  Python integers are unbounded, so every integer of the program is an \<^typ>\<open>int\<close>;
  \<^verbatim>\<open><<\<close>, \<^verbatim>\<open>>>\<close>, \<^verbatim>\<open>&\<close>, \<^verbatim>\<open>|\<close>, \<^verbatim>\<open>^\<close> and \<^verbatim>\<open>~\<close> are \<^const>\<open>push_bit\<close>,
  \<^const>\<open>drop_bit\<close>, \<open>AND\<close>, \<open>OR\<close>, \<open>XOR\<close> and \<open>NOT\<close> on \<^typ>\<open>int\<close>
  (infinite two's complement, as in Python), and \<^verbatim>\<open>//\<close> is \<open>div\<close> (both round down).
\<close>

definition NUM_STATE_BITS :: nat where
  "NUM_STATE_BITS = 64"

definition FREQ_SCALE_FACTOR :: int where
  "FREQ_SCALE_FACTOR = push_bit 32 1"

definition BASE64 :: string where
  "BASE64 = ''ABCDEFGHIJKLMNOPQRSTUVWXYZabcdefghijklmnopqrstuvwxyz0123456789+/''"

section \<open>ArithmeticCoderBase\<close>

text \<open>The values \<^verbatim>\<open>__init__\<close> computes once: they never change afterwards.\<close>

definition full_range :: int where
  "full_range = push_bit NUM_STATE_BITS 1"

definition half_range :: int where
  "half_range = drop_bit 1 full_range"

definition quarter_range :: int where
  "quarter_range = drop_bit 1 half_range"

definition state_mask :: int where
  "state_mask = full_range - 1"

text \<open>The exceptions the modelled code can raise.\<close>

datatype error = IndexError | ZeroDivisionError | ValueError

text \<open>
  The object: the two fields of the base class, and \<open>sub\<close>, the fields the subclass
  adds (the encoder's output and underflow counter, the decoder's input and code).
\<close>

record 'x coder =
  low :: int
  high :: int
  sub :: 'x

text \<open>
  \<^verbatim>\<open>cum_freqs[i]\<close> for an integer \<open>i\<close>: a negative index counts from the end, an index
  out of range raises.
\<close>

definition py_index :: "'a list \<Rightarrow> int \<Rightarrow> error + 'a" where
  "py_index xs i =
     (if i < - int (length xs) \<or> int (length xs) \<le> i then Inl IndexError
      else if i < 0 then Inr (xs ! (length xs - nat (- i)))
      else Inr (xs ! nat i))"

subsection \<open>A measure for the two renormalization loops\<close>

text \<open>
  \<open>pc n x\<close> counts the one bits among the lowest \<open>n\<close> bits of \<open>x\<close>. Each
  iteration of either loop shifts a one bit of \<^verbatim>\<open>low\<close> (or a zero bit of
  \<^verbatim>\<open>high\<close>) out of the window the loop looks at, so both loops end on every state,
  also on states no run of the coder reaches.
\<close>

fun pc :: "nat \<Rightarrow> int \<Rightarrow> nat" where
  "pc 0 x = 0"
| "pc (Suc n) x = of_bool (odd x) + pc n (x div 2)"

lemma pc_Suc: "pc (Suc n) x = pc n x + of_bool (bit x n)"
  by (induction n arbitrary: x) (simp_all add: bit_0 bit_Suc)

lemma pc_cong: "(\<And>i. i < n \<Longrightarrow> bit x i = bit y i) \<Longrightarrow> pc n x = pc n y"
proof (induction n arbitrary: x y)
  case 0
  then show ?case by simp
next
  case (Suc n)
  have "odd x = odd y" using Suc.prems [of 0] by (simp add: bit_0)
  moreover have "pc n (x div 2) = pc n (y div 2)"
    by (rule Suc.IH) (use Suc.prems in \<open>simp flip: bit_Suc\<close>)
  ultimately show ?case by simp
qed

lemma pc_double: "pc (Suc n) (x * 2) = pc n x"
  by simp

lemma pc_double_64: "pc 64 (x * 2) = pc 63 x"
  using pc_double [of 63 x] by simp

lemma pc_double_63: "pc 63 (x * 2) = pc 62 x"
  using pc_double [of 62 x] by simp

lemma pc_cong_64: "(\<And>i. i < 64 \<Longrightarrow> bit x i = bit y i) \<Longrightarrow> pc 64 x = pc 64 y"
  by (rule pc_cong)

lemma pc_cong_63: "(\<And>i. i < 63 \<Longrightarrow> bit x i = bit y i) \<Longrightarrow> pc 63 x = pc 63 y"
  by (rule pc_cong)

lemma state_mask_eq: "state_mask = mask 64"
  by (simp add: state_mask_def full_range_def NUM_STATE_BITS_def mask_eq_exp_minus_1)

lemma half_range_eq: "half_range = 2 ^ 63"
  by (simp add: half_range_def full_range_def NUM_STATE_BITS_def drop_bit_eq_div)

lemma quarter_range_eq: "quarter_range = 2 ^ 62"
  by (simp add: quarter_range_def half_range_def full_range_def NUM_STATE_BITS_def
      drop_bit_eq_div)

lemma pc_low_step: "pc 64 ((push_bit 1 x) AND state_mask) = pc 63 x"
proof -
  have "pc 64 ((push_bit 1 x) AND mask 64) = pc 64 (x * 2)"
    by (rule pc_cong_64) (simp only: bit_and_iff bit_mask_iff push_bit_eq_mult, simp)
  also have "\<dots> = pc 63 x" by (rule pc_double_64)
  finally show ?thesis unfolding state_mask_eq .
qed

lemma pc_high_step: "pc 64 (NOT (((push_bit 1 x) AND state_mask) OR 1)) = pc 63 (NOT x)"
proof -
  have "pc 64 (NOT (((push_bit 1 x) AND mask 64) OR 1)) = pc 64 (push_bit 1 (NOT x))"
    by (rule pc_cong_64)
      (simp only: bit_and_iff bit_mask_iff bit_or_iff bit_not_int_iff bit_push_bit_iff
        bit_1_iff, auto)
  also have "\<dots> = pc 64 (NOT x * 2)" by (simp only: push_bit_eq_mult, simp)
  also have "\<dots> = pc 63 (NOT x)" by (rule pc_double_64)
  finally show ?thesis unfolding state_mask_eq .
qed

lemma pc_underflow_step: "pc 63 ((push_bit 1 x) XOR half_range) = pc 62 x"
proof -
  have "pc 63 ((push_bit 1 x) XOR 2 ^ 63) = pc 63 (x * 2)"
    by (rule pc_cong_63) (simp only: bit_xor_iff bit_exp_iff push_bit_eq_mult, simp)
  also have "\<dots> = pc 62 x" by (rule pc_double_63)
  finally show ?thesis unfolding half_range_eq .
qed

lemma msb_cond: "((x XOR y) AND half_range = 0) = (bit x 63 = bit y 63)"
  unfolding half_range_eq by (simp only: and_exp_eq_0_iff_not_bit bit_xor_iff) blast

lemma underflow_cond:
  "(((x AND NOT y) AND quarter_range) \<noteq> 0) = (bit x 62 \<and> \<not> bit y 62)"
  unfolding quarter_range_eq
  by (simp only: and_exp_eq_0_iff_not_bit bit_and_iff bit_not_int_iff) blast

subsection \<open>\<^verbatim>\<open>update\<close>\<close>

text \<open>
  The first loop of \<^verbatim>\<open>update\<close>. The hook \<open>shift\<close> is the subclass's method: it
  reads the object and gives the subclass's fields back (neither subclass assigns
  \<^verbatim>\<open>low\<close> or \<^verbatim>\<open>high\<close> in a hook). \<open>msb_body\<close> is one pass through the loop's
  body: the hook runs first, on the object as the pass found it, then the two
  assignments.
\<close>

definition msb_body :: "('x coder \<Rightarrow> 'x) \<Rightarrow> 'x coder \<Rightarrow> 'x coder" where
  "msb_body shift s =
     \<lparr>low = (push_bit 1 (low s)) AND state_mask,
      high = ((push_bit 1 (high s)) AND state_mask) OR 1,
      sub = shift s\<rparr>"

function msb_loop :: "('x coder \<Rightarrow> 'x) \<Rightarrow> 'x coder \<Rightarrow> 'x coder" where
  "msb_loop shift s =
     (if ((low s XOR high s) AND half_range) = 0
      then msb_loop shift (msb_body shift s)
      else s)"
  by pat_completeness auto
termination
proof (relation "measure (\<lambda>(shift, s). pc 64 (low s) + pc 64 (NOT (high s)))")
  show "wf (measure (\<lambda>(shift, s). pc 64 (low s) + pc 64 (NOT (high s))))" by simp
next
  fix shift :: "'a coder \<Rightarrow> 'a" and s :: "'a coder"
  assume c: "((low s XOR high s) AND half_range) = 0"
  have e: "pc 64 (low s) = pc 63 (low s) + of_bool (bit (low s) 63)"
     "pc 64 (NOT (high s)) = pc 63 (NOT (high s)) + of_bool (\<not> bit (high s) 63)"
    using pc_Suc [of 63 "low s"] pc_Suc [of 63 "NOT (high s)"]
    by (simp_all add: bit_not_int_iff)
  from c have "bit (low s) 63 = bit (high s) 63" by (simp add: msb_cond)
  then show "((shift, msb_body shift s), (shift, s))
            \<in> measure (\<lambda>(shift, s). pc 64 (low s) + pc 64 (NOT (high s)))"
    unfolding msb_body_def
    by (simp only: in_measure prod.case coder.simps pc_low_step pc_high_step e) simp
qed

declare msb_loop.simps [simp del]

text \<open>
  The second loop. Python applies no mask here: the results are the unbounded integers
  the expressions denote.
\<close>

definition underflow_body :: "('x coder \<Rightarrow> 'x) \<Rightarrow> 'x coder \<Rightarrow> 'x coder" where
  "underflow_body underflow s =
     \<lparr>low = (push_bit 1 (low s)) XOR half_range,
      high = ((push_bit 1 (high s XOR half_range)) OR half_range) OR 1,
      sub = underflow s\<rparr>"

function underflow_loop :: "('x coder \<Rightarrow> 'x) \<Rightarrow> 'x coder \<Rightarrow> 'x coder" where
  "underflow_loop underflow s =
     (if ((low s AND NOT (high s)) AND quarter_range) \<noteq> 0
      then underflow_loop underflow (underflow_body underflow s)
      else s)"
  by pat_completeness auto
termination
proof (relation "measure (\<lambda>(underflow, s). pc 63 (low s))")
  show "wf (measure (\<lambda>(underflow, s). pc 63 (low s)))" by simp
next
  fix underflow :: "'a coder \<Rightarrow> 'a" and s :: "'a coder"
  assume c: "((low s AND NOT (high s)) AND quarter_range) \<noteq> 0"
  have e: "pc 63 (low s) = pc 62 (low s) + of_bool (bit (low s) 62)"
    using pc_Suc [of 62 "low s"] by simp
  from c have "bit (low s) 62" by (simp add: underflow_cond)
  then show "((underflow, underflow_body underflow s), (underflow, s))
            \<in> measure (\<lambda>(underflow, s). pc 63 (low s))"
    unfolding underflow_body_def
    by (simp only: in_measure prod.case coder.simps pc_underflow_step e) simp
qed

declare underflow_loop.simps [simp del]

text \<open>
  \<^verbatim>\<open>update\<close>. \<open>cum_freqs\<close> holds the table's entries as \<^verbatim>\<open>int(...)\<close> reads them.
  \<^verbatim>\<open>cum_freqs[-1]\<close> raises on an empty table, \<^verbatim>\<open>cum_freqs[symbol]\<close> on a symbol out of
  range, and \<^verbatim>\<open>//\<close> on a zero total. \<^verbatim>\<open>range\<close> (here \<open>rng\<close>; \<^verbatim>\<open>total\<close> is \<open>tot\<close>)
  is computed once, before
  \<^verbatim>\<open>high\<close> is assigned, and \<^verbatim>\<open>low\<close> is still the old one when \<^verbatim>\<open>high\<close> is assigned.
\<close>

definition update ::
  "('x coder \<Rightarrow> 'x) \<Rightarrow> ('x coder \<Rightarrow> 'x) \<Rightarrow> int list \<Rightarrow> int \<Rightarrow> 'x coder \<Rightarrow> error + 'x coder"
where
  "update shift underflow cum_freqs symbol s =
     (case py_index cum_freqs (- 1) of
        Inl e \<Rightarrow> Inl e
      | Inr tot \<Rightarrow>
          let rng = high s - low s + 1 in
          (case py_index cum_freqs symbol of
             Inl e \<Rightarrow> Inl e
           | Inr symhigh \<Rightarrow>
               if tot = 0 then Inl ZeroDivisionError
               else
                 let high' = low s + symhigh * rng div tot - 1 in
                 (case (if symbol > 0 then py_index cum_freqs (symbol - 1) else Inr 0) of
                    Inl e \<Rightarrow> Inl e
                  | Inr symlow \<Rightarrow>
                      let low' = low s + symlow * rng div tot in
                      Inr (underflow_loop underflow
                             (msb_loop shift (s\<lparr>high := high', low := low'\<rparr>))))))"

section \<open>Encoder\<close>

record enc_fields =
  encoded_data :: "int list"
  num_underflow :: nat

type_synonym encoder = "enc_fields coder"

definition Encoder_init :: encoder where
  "Encoder_init =
     \<lparr>low = 0, high = state_mask, sub = \<lparr>encoded_data = [], num_underflow = 0\<rparr>\<rparr>"

definition get_encoded :: "encoder \<Rightarrow> int list" where
  "get_encoded s = encoded_data (sub s)"

definition enc_shift :: "encoder \<Rightarrow> enc_fields" where
  "enc_shift s =
     (let bit = drop_bit (NUM_STATE_BITS - 1) (low s)
      in \<lparr>encoded_data =
            (encoded_data (sub s) @ [bit]) @ replicate (num_underflow (sub s)) (bit XOR 1),
          num_underflow = 0\<rparr>)"

definition enc_underflow :: "encoder \<Rightarrow> enc_fields" where
  "enc_underflow s = (sub s)\<lparr>num_underflow := num_underflow (sub s) + 1\<rparr>"

definition encode_symbol :: "int list \<Rightarrow> int \<Rightarrow> encoder \<Rightarrow> error + encoder" where
  "encode_symbol cum_freqs symbol s = update enc_shift enc_underflow cum_freqs symbol s"

definition finish :: "encoder \<Rightarrow> encoder" where
  "finish s = s\<lparr>sub := (sub s)\<lparr>encoded_data := encoded_data (sub s) @ [1]\<rparr>\<rparr>"

section \<open>Decoder\<close>

record dec_fields =
  input :: "int list"
  code :: int

type_synonym decoder = "dec_fields coder"

text \<open>\<^verbatim>\<open>read_code_bit\<close>: the next bit of the input, or 0 once it is used up.\<close>

definition read_code_bit :: "int list \<Rightarrow> int \<times> int list" where
  "read_code_bit inp = (case inp of [] \<Rightarrow> (0, []) | b # rest \<Rightarrow> (b, rest))"

text \<open>
  The sum in \<^verbatim>\<open>__init__\<close>: \<open>read_code n inp\<close> reads the bits for the positions
  \<open>n - 1\<close> down to 0, in this order, so \<open>read_code NUM_STATE_BITS\<close> is the whole sum.
\<close>

fun read_code :: "nat \<Rightarrow> int list \<Rightarrow> int \<times> int list" where
  "read_code 0 inp = (0, inp)"
| "read_code (Suc i) inp =
     (let (b, inp1) = read_code_bit inp;
          (c, inp2) = read_code i inp1
      in (push_bit i b + c, inp2))"

definition Decoder_init :: "int list \<Rightarrow> decoder" where
  "Decoder_init encoded =
     (let (c, inp) = read_code NUM_STATE_BITS encoded
      in \<lparr>low = 0, high = state_mask, sub = \<lparr>input = inp, code = c\<rparr>\<rparr>)"

definition dec_shift :: "decoder \<Rightarrow> dec_fields" where
  "dec_shift s =
     (let (b, inp) = read_code_bit (input (sub s))
      in \<lparr>input = inp, code = ((push_bit 1 (code (sub s))) AND state_mask) OR b\<rparr>)"

definition dec_underflow :: "decoder \<Rightarrow> dec_fields" where
  "dec_underflow s =
     (let (b, inp) = read_code_bit (input (sub s))
      in \<lparr>input = inp,
          code = ((code (sub s) AND half_range)
                  OR ((push_bit 1 (code (sub s))) AND (drop_bit 1 state_mask)))
                 OR b\<rparr>)"

text \<open>
  \<^verbatim>\<open>np.searchsorted(cum_freqs, value, side="right")\<close> on a sorted table: the number of
  entries that are at most \<open>value\<close>, which is the least index whose entry is greater.
\<close>

definition searchsorted_right :: "int list \<Rightarrow> int \<Rightarrow> int" where
  "searchsorted_right cum_freqs v = int (length (filter (\<lambda>c. c \<le> v) cum_freqs))"

definition decode_symbol :: "int list \<Rightarrow> decoder \<Rightarrow> error + (int \<times> decoder)" where
  "decode_symbol cum_freqs s =
     (case py_index cum_freqs (- 1) of
        Inl e \<Rightarrow> Inl e
      | Inr tot \<Rightarrow>
          let rng = high s - low s + 1;
              offset = code (sub s) - low s
          in if rng = 0 then Inl ZeroDivisionError
             else
               let v = ((offset + 1) * tot - 1) div rng;
                   symbol = searchsorted_right cum_freqs v
               in (case update dec_shift dec_underflow cum_freqs symbol s of
                     Inl e \<Rightarrow> Inl e
                   | Inr s' \<Rightarrow> Inr (symbol, s')))"

section \<open>Sequences of symbols\<close>

text \<open>
  Encoding a sequence of (table, symbol) pairs, one \<^verbatim>\<open>encode_symbol\<close> call each, and
  decoding with a sequence of tables, one \<^verbatim>\<open>decode_symbol\<close> call each. An exception
  ends the run, as it would in Python.
\<close>

fun encode_all :: "(int list \<times> int) list \<Rightarrow> encoder \<Rightarrow> error + encoder" where
  "encode_all [] s = Inr s"
| "encode_all ((cum_freqs, symbol) # rest) s =
     (case encode_symbol cum_freqs symbol s of
        Inl e \<Rightarrow> Inl e
      | Inr s' \<Rightarrow> encode_all rest s')"

fun decode_all :: "int list list \<Rightarrow> decoder \<Rightarrow> error + (int list \<times> decoder)" where
  "decode_all [] d = Inr ([], d)"
| "decode_all (cum_freqs # rest) d =
     (case decode_symbol cum_freqs d of
        Inl e \<Rightarrow> Inl e
      | Inr (symbol, d') \<Rightarrow>
          (case decode_all rest d' of
             Inl e \<Rightarrow> Inl e
           | Inr (symbols, d'') \<Rightarrow> Inr (symbol # symbols, d'')))"

section \<open>Bits and 64-bit arithmetic\<close>

lemma bit_top: "0 \<le> x \<Longrightarrow> x < 2 * 2 ^ n \<Longrightarrow> bit x n = (2 ^ n \<le> (x::int))"
proof (cases "x < 2 ^ n")
  case True
  assume "0 \<le> x"
  with True have "x div 2 ^ n = 0" by simp
  with True show ?thesis by (simp add: bit_iff_odd)
next
  case False
  assume "x < 2 * 2 ^ n"
  with False have "x div 2 ^ n = (x - 2 ^ n) div 2 ^ n + 1"
    by (intro div_pos_geq) simp_all
  moreover from False \<open>x < 2 * 2 ^ n\<close> have "(x - 2 ^ n) div 2 ^ n = 0" by simp
  ultimately show ?thesis using False by (simp add: bit_iff_odd)
qed

lemma bit_add_period: "bit (x + 2 * 2 ^ n) n = bit (x::int) n"
proof -
  have "(x + 2 * 2 ^ n) div 2 ^ n = x div 2 ^ n + 2"
    by (simp add: mult.commute)
  then show ?thesis by (simp add: bit_iff_odd)
qed

lemma bit63_iff: "0 \<le> x \<Longrightarrow> x < 2 ^ 64 \<Longrightarrow> bit x 63 = (2 ^ 63 \<le> (x::int))"
  using bit_top [of x 63] by simp

lemma bit62_low: "0 \<le> x \<Longrightarrow> x < 2 ^ 63 \<Longrightarrow> bit x 62 = (2 ^ 62 \<le> (x::int))"
  using bit_top [of x 62] by simp

lemma bit62_high: "2 ^ 63 \<le> x \<Longrightarrow> x < 2 ^ 64 \<Longrightarrow> bit x 62 = (2 ^ 63 + 2 ^ 62 \<le> (x::int))"
  using bit_top [of "x - 2 ^ 63" 62] bit_add_period [of "x - 2 ^ 63" 62] by simp

lemma shl_mask: "(push_bit 1 x) AND state_mask = (2 * x) mod 2 ^ 64"
  unfolding state_mask_eq by (simp add: push_bit_eq_mult take_bit_eq_mod mult.commute flip: take_bit_eq_mask)

lemma shl_mask_or1: "((push_bit 1 x) AND state_mask) OR 1 = (2 * x) mod 2 ^ 64 + 1"
proof -
  have "even ((2 * x) mod (2 ^ 64 :: int))" by (simp add: dvd_mod_iff)
  then show ?thesis unfolding shl_mask by (simp add: or_one_eq)
qed

lemma xor_half_set: "bit x 63 \<Longrightarrow> x XOR half_range = x - 2 ^ 63"
  unfolding half_range_eq
  using flip_bit_eq_if [of 63 x] unset_bit_eq [of 63 x]
  by (simp add: flip_bit_eq_xor)

lemma xor_half_unset: "\<not> bit x 63 \<Longrightarrow> x XOR half_range = x + 2 ^ 63"
  unfolding half_range_eq
  using flip_bit_eq_if [of 63 x] set_bit_eq [of 63 x]
  by (simp add: flip_bit_eq_xor)

lemma or_half_unset: "\<not> bit x 63 \<Longrightarrow> x OR half_range = x + 2 ^ 63"
  unfolding half_range_eq
  using set_bit_eq [of 63 x] by (simp add: set_bit_eq_or)

section \<open>Tables, symbols and the interval invariant\<close>

text \<open>
  A table as the claims take it: not empty, strictly increasing, its first entry positive
  and its last entry (the total) at most \<^verbatim>\<open>quarter_range\<close>. A symbol is in range when it
  indexes an entry.
\<close>

definition valid_cdf :: "int list \<Rightarrow> bool" where
  "valid_cdf c \<longleftrightarrow> c \<noteq> [] \<and> 0 < hd c \<and> sorted_wrt (<) c \<and> last c \<le> quarter_range"

definition symbol_ok :: "int list \<Rightarrow> int \<Rightarrow> bool" where
  "symbol_ok c symbol \<longleftrightarrow> 0 \<le> symbol \<and> symbol < int (length c)"

definition interval_ok :: "'x coder \<Rightarrow> bool" where
  "interval_ok s \<longleftrightarrow> 0 \<le> low s \<and> low s \<le> high s \<and> high s < full_range"

definition straddles :: "'x coder \<Rightarrow> bool" where
  "straddles s \<longleftrightarrow> 0 \<le> low s \<and> low s < half_range \<and> half_range \<le> high s \<and> high s < full_range"

definition normalized :: "'x coder \<Rightarrow> bool" where
  "normalized s \<longleftrightarrow> straddles s \<and> \<not> (quarter_range \<le> low s \<and> high s < half_range + quarter_range)"

lemma full_range_eq: "full_range = 2 ^ 64"
  by (simp add: full_range_def NUM_STATE_BITS_def)

lemma double_mod:
  assumes "0 \<le> l" "l < 2 ^ 64"
  shows "(2 * l) mod 2 ^ 64 = (if l < 2 ^ 63 then 2 * l else 2 * l - (2 ^ 64 :: int))"
proof (cases "l < 2 ^ 63")
  case True
  with assms have "(2 * l) mod 2 ^ 64 = 2 * l" by simp
  with True show ?thesis by simp
next
  case False
  have "(2 * l) mod 2 ^ 64 = (2 * l - 2 ^ 64) mod 2 ^ 64"
    by (rule minus_mod_self2 [symmetric])
  also have "\<dots> = 2 * l - 2 ^ 64"
    by (rule mod_pos_pos_trivial) (use False assms in simp_all)
  finally show ?thesis using False by simp
qed

lemma msb_step_low:
  assumes "0 \<le> l" "l < 2 ^ 64"
  shows "(push_bit 1 l) AND state_mask = (if l < 2 ^ 63 then 2 * l else 2 * l - 2 ^ 64)"
  unfolding shl_mask by (rule double_mod [OF assms])

lemma msb_step_high:
  assumes "0 \<le> h" "h < 2 ^ 64"
  shows "((push_bit 1 h) AND state_mask) OR 1 = (if h < 2 ^ 63 then 2 * h + 1 else 2 * h + 1 - 2 ^ 64)"
  unfolding shl_mask_or1 double_mod [OF assms] by simp

lemma underflow_step_low:
  assumes "2 ^ 62 \<le> l" "l < 2 ^ 63"
  shows "(push_bit 1 l) XOR half_range = 2 * l - 2 ^ 63"
proof -
  have "bit (2 * l) 63" using assms bit63_iff [of "2 * l"] by simp
  then show ?thesis using xor_half_set [of "2 * l"] by (simp add: push_bit_eq_mult mult.commute)
qed

lemma underflow_step_high:
  assumes "2 ^ 63 \<le> h" "h < 2 ^ 63 + 2 ^ 62"
  shows "((push_bit 1 (h XOR half_range)) OR half_range) OR 1 = 2 * h - 2 ^ 63 + 1"
proof -
  have "bit h 63" using assms bit63_iff [of h] by simp
  then have a: "h XOR half_range = h - 2 ^ 63" by (rule xor_half_set)
  have "\<not> bit (2 * (h - 2 ^ 63)) 63" using assms bit63_iff [of "2 * (h - 2 ^ 63)"] by simp
  then have b: "(2 * (h - 2 ^ 63)) OR half_range = 2 * (h - 2 ^ 63) + 2 ^ 63" by (rule or_half_unset)
  have "even (2 * (h - 2 ^ 63) + (2 ^ 63 :: int))" by simp
  then have c: "(2 * (h - 2 ^ 63) + 2 ^ 63) OR 1 = 2 * (h - 2 ^ 63) + 2 ^ 63 + (1::int)"
    by (simp only: or_one_eq) simp
  show ?thesis unfolding a push_bit_eq_mult
    using b c by (simp add: mult.commute)
qed

lemma msb_cond_arith:
  assumes "interval_ok s"
  shows "(((low s XOR high s) AND half_range) = 0) = (high s < 2 ^ 63 \<or> 2 ^ 63 \<le> low s)"
proof -
  from assms have b: "0 \<le> low s" "low s < 2 ^ 64" "0 \<le> high s" "high s < 2 ^ 64" "low s \<le> high s"
    by (simp_all add: interval_ok_def full_range_eq)
  show ?thesis
    unfolding msb_cond bit63_iff [OF b(1,2)] bit63_iff [OF b(3,4)] using b(5) by auto
qed

lemma msb_body_arith:
  assumes "interval_ok s" "high s < 2 ^ 63 \<or> 2 ^ 63 \<le> low s"
  shows "low (msb_body shift s) = 2 * low s - (if 2 ^ 63 \<le> low s then 2 ^ 64 else 0)"
    and "high (msb_body shift s) = 2 * high s + 1 - (if 2 ^ 63 \<le> low s then 2 ^ 64 else 0)"
    and "sub (msb_body shift s) = shift s"
proof -
  from assms have b: "0 \<le> low s" "low s < 2 ^ 64" "0 \<le> high s" "high s < 2 ^ 64" "low s \<le> high s"
    by (simp_all add: interval_ok_def full_range_eq)
  show "low (msb_body shift s) = 2 * low s - (if 2 ^ 63 \<le> low s then 2 ^ 64 else 0)"
    unfolding msb_body_def coder.simps msb_step_low [OF b(1,2)] by simp
  show "high (msb_body shift s) = 2 * high s + 1 - (if 2 ^ 63 \<le> low s then 2 ^ 64 else 0)"
    unfolding msb_body_def coder.simps msb_step_high [OF b(3,4)] using assms(2) b(5) by auto
  show "sub (msb_body shift s) = shift s" by (simp add: msb_body_def)
qed

lemma msb_body_interval_ok:
  assumes "interval_ok s" "high s < 2 ^ 63 \<or> 2 ^ 63 \<le> low s"
  shows "interval_ok (msb_body shift s)"
  using assms unfolding interval_ok_def [of "msb_body shift s"] msb_body_arith [OF assms]
  by (auto simp add: interval_ok_def full_range_eq)

lemma msb_loop_true:
  "((low s XOR high s) AND half_range) = 0 \<Longrightarrow> msb_loop shift s = msb_loop shift (msb_body shift s)"
  by (subst msb_loop.simps) simp

lemma msb_loop_false:
  "((low s XOR high s) AND half_range) \<noteq> 0 \<Longrightarrow> msb_loop shift s = s"
  by (subst msb_loop.simps) simp

lemma underflow_loop_true:
  "((low s AND NOT (high s)) AND quarter_range) \<noteq> 0 \<Longrightarrow>
   underflow_loop u s = underflow_loop u (underflow_body u s)"
  by (subst underflow_loop.simps) simp

lemma underflow_loop_false:
  "((low s AND NOT (high s)) AND quarter_range) = 0 \<Longrightarrow> underflow_loop u s = s"
  by (subst underflow_loop.simps) simp

lemma msb_loop_straddles: "interval_ok s \<Longrightarrow> straddles (msb_loop shift s)"
proof (induction shift s rule: msb_loop.induct)
  case (1 shift s)
  show ?case
  proof (cases "((low s XOR high s) AND half_range) = 0")
    case True
    then have c: "high s < 2 ^ 63 \<or> 2 ^ 63 \<le> low s"
      using msb_cond_arith [OF "1.prems"] by simp
    have "straddles (msb_loop shift (msb_body shift s))"
      by (rule "1.IH" [OF True]) (rule msb_body_interval_ok [OF "1.prems" c])
    then show ?thesis by (simp only: msb_loop_true [OF True])
  next
    case False
    then have "\<not> (high s < 2 ^ 63 \<or> 2 ^ 63 \<le> low s)"
      using msb_cond_arith [OF "1.prems"] by simp
    then have "straddles s" using "1.prems"
      by (simp add: straddles_def interval_ok_def half_range_eq)
    then show ?thesis by (simp only: msb_loop_false [OF False])
  qed
qed

lemma underflow_cond_arith:
  assumes "straddles s"
  shows "(((low s AND NOT (high s)) AND quarter_range) \<noteq> 0)
         = (2 ^ 62 \<le> low s \<and> high s < 2 ^ 63 + 2 ^ 62)"
proof -
  from assms have b: "0 \<le> low s" "low s < 2 ^ 63" "2 ^ 63 \<le> high s" "high s < 2 ^ 64"
    by (simp_all add: straddles_def full_range_eq half_range_eq)
  show ?thesis
    unfolding underflow_cond bit62_low [OF b(1,2)] bit62_high [OF b(3,4)] by auto
qed

lemma underflow_body_arith:
  assumes "straddles s" "2 ^ 62 \<le> low s \<and> high s < 2 ^ 63 + 2 ^ 62"
  shows "low (underflow_body u s) = 2 * low s - 2 ^ 63"
    and "high (underflow_body u s) = 2 * high s - 2 ^ 63 + 1"
    and "sub (underflow_body u s) = u s"
proof -
  from assms have b: "2 ^ 62 \<le> low s" "low s < 2 ^ 63" "2 ^ 63 \<le> high s" "high s < 2 ^ 63 + 2 ^ 62"
    by (simp_all add: straddles_def full_range_eq half_range_eq)
  show "low (underflow_body u s) = 2 * low s - 2 ^ 63"
    unfolding underflow_body_def coder.simps by (rule underflow_step_low [OF b(1,2)])
  show "high (underflow_body u s) = 2 * high s - 2 ^ 63 + 1"
    unfolding underflow_body_def coder.simps by (rule underflow_step_high [OF b(3,4)])
  show "sub (underflow_body u s) = u s" by (simp add: underflow_body_def)
qed

lemma underflow_body_straddles:
  assumes "straddles s" "2 ^ 62 \<le> low s \<and> high s < 2 ^ 63 + 2 ^ 62"
  shows "straddles (underflow_body u s)"
  using assms unfolding straddles_def [of "underflow_body u s"] underflow_body_arith [OF assms]
  by (auto simp add: straddles_def full_range_eq half_range_eq)

lemma underflow_loop_normalized: "straddles s \<Longrightarrow> normalized (underflow_loop u s)"
proof (induction u s rule: underflow_loop.induct)
  case (1 u s)
  show ?case
  proof (cases "((low s AND NOT (high s)) AND quarter_range) \<noteq> 0")
    case True
    then have c: "2 ^ 62 \<le> low s \<and> high s < 2 ^ 63 + 2 ^ 62"
      using underflow_cond_arith [OF "1.prems"] by simp
    have "normalized (underflow_loop u (underflow_body u s))"
      by (rule "1.IH" [OF True]) (rule underflow_body_straddles [OF "1.prems" c])
    then show ?thesis by (simp only: underflow_loop_true [OF True])
  next
    case False
    then have "\<not> (2 ^ 62 \<le> low s \<and> high s < 2 ^ 63 + 2 ^ 62)"
      using underflow_cond_arith [OF "1.prems"] by simp
    then have "normalized s" using "1.prems"
      by (simp add: normalized_def half_range_eq quarter_range_eq)
    moreover from False have "underflow_loop u s = s" by (simp add: underflow_loop_false)
    ultimately show ?thesis by simp
  qed
qed

definition sym_high :: "int list \<Rightarrow> int \<Rightarrow> int" where
  "sym_high c symbol = c ! nat symbol"

definition sym_low :: "int list \<Rightarrow> int \<Rightarrow> int" where
  "sym_low c symbol = (if symbol > 0 then c ! nat (symbol - 1) else 0)"

definition narrow :: "int list \<Rightarrow> int \<Rightarrow> 'x coder \<Rightarrow> 'x coder" where
  "narrow c symbol s =
     s\<lparr>high := low s + sym_high c symbol * (high s - low s + 1) div last c - 1,
       low := low s + sym_low c symbol * (high s - low s + 1) div last c\<rparr>"

lemma valid_cdf_nth_pos:
  assumes "valid_cdf c" "i < length c"
  shows "0 < c ! i"
proof (cases i)
  case 0
  from assms(1) have "c \<noteq> []" "0 < hd c" by (simp_all add: valid_cdf_def)
  then show ?thesis using 0 by (simp add: hd_conv_nth)
next
  case (Suc j)
  from assms have "c ! 0 < c ! i" unfolding valid_cdf_def
    using sorted_wrt_nth_less [of "(<)" c 0 i] Suc by simp
  moreover from assms(1) have "c \<noteq> []" "0 < hd c" by (simp_all add: valid_cdf_def)
  then have "0 < c ! 0" by (simp add: hd_conv_nth)
  ultimately show ?thesis by simp
qed

lemma valid_cdf_nth_le_last:
  assumes "valid_cdf c" "i < length c"
  shows "c ! i \<le> last c"
proof (cases "i = length c - 1")
  case True
  with assms show ?thesis by (simp add: valid_cdf_def last_conv_nth)
next
  case False
  with assms have "c ! i < c ! (length c - 1)" unfolding valid_cdf_def
    using sorted_wrt_nth_less [of "(<)" c i "length c - 1"] by simp
  with assms show ?thesis by (simp add: valid_cdf_def last_conv_nth)
qed

lemma sym_bounds:
  assumes "valid_cdf c" "symbol_ok c symbol"
  shows "0 \<le> sym_low c symbol" "sym_low c symbol < sym_high c symbol"
    "sym_high c symbol \<le> last c" "0 < last c" "last c \<le> 2 ^ 62"
proof -
  from assms(2) have n: "nat symbol < length c" "0 \<le> symbol"
    by (simp_all add: symbol_ok_def nat_less_iff)
  show "0 \<le> sym_low c symbol"
    using valid_cdf_nth_pos [OF assms(1), of "nat (symbol - 1)"] n
    by (auto simp add: sym_low_def nat_less_iff)
  show "sym_low c symbol < sym_high c symbol"
  proof (cases "symbol > 0")
    case True
    then have "nat (symbol - 1) < nat symbol" by simp
    with assms(1) n show ?thesis unfolding valid_cdf_def sym_low_def sym_high_def
      using sorted_wrt_nth_less [of "(<)" c "nat (symbol - 1)" "nat symbol"] True by simp
  next
    case False
    then show ?thesis using valid_cdf_nth_pos [OF assms(1) n(1)]
      by (simp add: sym_low_def sym_high_def)
  qed
  show "sym_high c symbol \<le> last c"
    unfolding sym_high_def by (rule valid_cdf_nth_le_last [OF assms(1) n(1)])
  show "0 < last c"
    using valid_cdf_nth_pos [OF assms(1), of "length c - 1"] assms(1)
    by (simp add: valid_cdf_def last_conv_nth)
  show "last c \<le> 2 ^ 62" using assms(1) by (simp add: valid_cdf_def quarter_range_eq)
qed

lemma py_index_last: "c \<noteq> [] \<Longrightarrow> py_index c (- 1) = Inr (last c)"
  by (cases c) (simp_all add: py_index_def last_conv_nth)

lemma py_index_ok: "0 \<le> i \<Longrightarrow> i < int (length c) \<Longrightarrow> py_index c i = Inr (c ! nat i)"
  by (simp add: py_index_def)

lemma update_eq:
  assumes "valid_cdf c" "symbol_ok c symbol"
  shows "update sh un c symbol s = Inr (underflow_loop un (msb_loop sh (narrow c symbol s)))"
proof -
  from assms(1) have ne: "c \<noteq> []" by (simp add: valid_cdf_def)
  from assms(2) have r: "0 \<le> symbol" "symbol < int (length c)" by (simp_all add: symbol_ok_def)
  have l: "(if symbol > 0 then py_index c (symbol - 1) else Inr 0) = Inr (sym_low c symbol)"
    using r by (simp add: sym_low_def py_index_ok)
  have t: "last c \<noteq> 0" using sym_bounds(4) [OF assms] by simp
  show ?thesis
    unfolding update_def py_index_last [OF ne] py_index_ok [OF r] l
    using t by (simp add: Let_def narrow_def sym_high_def)
qed

lemma narrow_bounds:
  assumes "valid_cdf c" "symbol_ok c symbol" "last c \<le> high s - low s + 1"
  shows "low s \<le> low (narrow c symbol s)"
    and "low (narrow c symbol s) \<le> high (narrow c symbol s)"
    and "high (narrow c symbol s) \<le> high s"
    and "sub (narrow c symbol s) = sub s"
proof -
  define R where "R = high s - low s + 1"
  define T where "T = last c"
  define a where "a = sym_low c symbol"
  define b where "b = sym_high c symbol"
  have ab: "0 \<le> a" "a < b" "b \<le> T" "0 < T"
    using sym_bounds [OF assms(1,2)] by (simp_all add: a_def b_def T_def)
  have TR: "T \<le> R" using assms(3) by (simp add: T_def R_def)
  have lo: "low (narrow c symbol s) = low s + a * R div T"
    and hi: "high (narrow c symbol s) = low s + b * R div T - 1"
    by (simp_all add: narrow_def a_def b_def R_def T_def)
  have "0 \<le> a * R" using ab TR by simp
  then have "0 \<le> a * R div T" using ab by (simp add: pos_imp_zdiv_nonneg_iff)
  then show "low s \<le> low (narrow c symbol s)" by (simp add: lo)
  have "a * R + T \<le> b * R"
  proof -
    have "a * R + R = (a + 1) * R" by (simp add: algebra_simps)
    also have "\<dots> \<le> b * R" using ab TR by (intro mult_right_mono) simp_all
    finally show ?thesis using TR by simp
  qed
  then have "(a * R + T) div T \<le> b * R div T" using ab by (intro zdiv_mono1) simp_all
  moreover have "(a * R + T) div T = a * R div T + 1" using ab by simp
  ultimately show "low (narrow c symbol s) \<le> high (narrow c symbol s)" by (simp add: lo hi)
  have "b * R \<le> T * R" using ab TR by (intro mult_right_mono) simp_all
  then have "b * R div T \<le> T * R div T" using ab by (intro zdiv_mono1) simp_all
  moreover have "T * R div T = R" using ab by simp
  ultimately show "high (narrow c symbol s) \<le> high s" by (simp add: hi R_def)
  show "sub (narrow c symbol s) = sub s" by (simp add: narrow_def)
qed

lemma normalized_range:
  assumes "normalized s"
  shows "2 ^ 62 < high s - low s + 1" "0 \<le> low s" "high s < 2 ^ 64" "low s \<le> high s"
  using assms
  by (auto simp add: normalized_def straddles_def half_range_eq quarter_range_eq full_range_eq)

lemma narrow_interval_ok:
  assumes "normalized s" "valid_cdf c" "symbol_ok c symbol"
  shows "interval_ok (narrow c symbol s)"
proof -
  have "last c \<le> high s - low s + 1"
    using sym_bounds(5) [OF assms(2,3)] normalized_range(1) [OF assms(1)] by simp
  from narrow_bounds [OF assms(2,3) this] normalized_range [OF assms(1)]
  show ?thesis by (simp add: interval_ok_def full_range_eq)
qed

lemma update_normalized:
  assumes "normalized s" "valid_cdf c" "symbol_ok c symbol"
  shows "\<exists>s'. update sh un c symbol s = Inr s' \<and> normalized s'"
  unfolding update_eq [OF assms(2,3)]
  using underflow_loop_normalized [OF msb_loop_straddles [OF narrow_interval_ok [OF assms]]]
  by simp

section \<open>The bit stream as a number\<close>

definition nth0 :: "int list \<Rightarrow> nat \<Rightarrow> int" where
  "nth0 bs i = (if i < length bs then bs ! i else 0)"

fun pv :: "nat \<Rightarrow> int list \<Rightarrow> int" where
  "pv 0 bs = 0"
| "pv (Suc n) bs = 2 * pv n bs + nth0 bs n"

definition bits_ok :: "int list \<Rightarrow> bool" where
  "bits_ok bs \<longleftrightarrow> list_all (\<lambda>b. b = 0 \<or> b = 1) bs"

lemma nth0_bit: "bits_ok bs \<Longrightarrow> nth0 bs i = 0 \<or> nth0 bs i = 1"
  by (auto simp add: nth0_def bits_ok_def list_all_length)

lemma nth0_tl: "nth0 (tl bs) i = nth0 bs (Suc i)"
  by (cases bs) (simp_all add: nth0_def)

lemma nth0_drop: "nth0 (drop k bs) i = nth0 bs (k + i)"
  by (auto simp add: nth0_def)

lemma nth0_append_left: "i < length xs \<Longrightarrow> nth0 (xs @ ys) i = nth0 xs i"
  by (simp add: nth0_def nth_append)

lemma nth0_append_right: "nth0 (xs @ ys) (length xs + i) = nth0 ys i"
  by (simp add: nth0_def nth_append)

lemma pv_cons: "pv (Suc n) bs = nth0 bs 0 * 2 ^ n + pv n (tl bs)"
  by (induction n) (simp_all add: nth0_tl algebra_simps)

lemma pv_bounds: "bits_ok bs \<Longrightarrow> 0 \<le> pv n bs \<and> pv n bs < 2 ^ n"
proof (induction n)
  case 0
  then show ?case by simp
next
  case (Suc n)
  then show ?case using nth0_bit [OF Suc.prems, of n] by auto
qed

lemma pv_append_left: "n \<le> length xs \<Longrightarrow> pv n (xs @ ys) = pv n xs"
  by (induction n) (simp_all add: nth0_append_left)

lemma pv_append: "pv (length xs + j) (xs @ ys) = pv (length xs) xs * 2 ^ j + pv j ys"
proof (induction j)
  case 0
  then show ?case by (simp add: pv_append_left)
next
  case (Suc j)
  have "pv (length xs + Suc j) (xs @ ys) = pv (Suc (length xs + j)) (xs @ ys)" by simp
  also have "\<dots> = 2 * pv (length xs + j) (xs @ ys) + nth0 (xs @ ys) (length xs + j)"
    by (simp only: pv.simps)
  also have "\<dots> = 2 * (pv (length xs) xs * 2 ^ j + pv j ys) + nth0 ys j"
    by (simp only: Suc.IH nth0_append_right)
  also have "\<dots> = pv (length xs) xs * 2 ^ Suc j + pv (Suc j) ys"
    by (simp add: algebra_simps)
  finally show ?case .
qed

lemma pv_replicate: "pv n (replicate n d) = d * (2 ^ n - 1)"
proof (induction n)
  case 0
  then show ?case by simp
next
  case (Suc n)
  have "pv n (replicate (Suc n) d) = pv n (replicate n d @ [d])"
    by (simp only: replicate_append_same) simp
  also have "\<dots> = pv n (replicate n d)" by (rule pv_append_left) simp
  finally have a: "pv n (replicate (Suc n) d) = d * (2 ^ n - 1)" by (simp only: Suc.IH)
  have "nth0 (replicate (Suc n) d) n = d" by (simp add: nth0_def del: replicate_Suc)
  then have "pv (Suc n) (replicate (Suc n) d) = 2 * (d * (2 ^ n - 1)) + d"
    by (simp only: pv.simps a)
  then show ?case by (simp add: algebra_simps)
qed

lemma pv_zero_tail: "pv n [] = 0"
  by (induction n) (simp_all add: nth0_def)

lemma read_code_bit_eq: "read_code_bit bs = (nth0 bs 0, tl bs)"
  by (cases bs) (simp_all add: read_code_bit_def nth0_def)

lemma read_code_eq: "read_code n bs = (pv n bs, drop n bs)"
proof (induction n arbitrary: bs)
  case 0
  then show ?case by simp
next
  case (Suc n)
  show ?case
    unfolding read_code.simps read_code_bit_eq Suc.IH
    by (simp add: pv_cons push_bit_eq_mult drop_Suc del: pv.simps)
qed

section \<open>The decoder state that matches an encoder state\<close>

definition consumed :: "encoder \<Rightarrow> nat" where
  "consumed e = length (encoded_data (sub e)) + num_underflow (sub e)"

definition offset_of :: "encoder \<Rightarrow> int" where
  "offset_of e =
     pv (length (encoded_data (sub e))) (encoded_data (sub e)) * 2 ^ (64 + num_underflow (sub e))
     + (2 ^ num_underflow (sub e) - 1) * 2 ^ 63"

definition code_of :: "encoder \<Rightarrow> int list \<Rightarrow> int" where
  "code_of e S = pv (64 + consumed e) S - offset_of e"

definition dec_of :: "encoder \<Rightarrow> int list \<Rightarrow> decoder" where
  "dec_of e S =
     \<lparr>low = low e, high = high e,
      sub = \<lparr>input = drop (64 + consumed e) S, code = code_of e S\<rparr>\<rparr>"

definition tracks :: "encoder \<Rightarrow> int list \<Rightarrow> bool" where
  "tracks e S \<longleftrightarrow> bits_ok S \<and> low e \<le> code_of e S \<and> code_of e S \<le> high e"

lemma top_bit:
  assumes "0 \<le> l" "l < 2 ^ 64"
  shows "drop_bit 63 l = (if 2 ^ 63 \<le> l then 1 else (0::int))"
proof (cases "2 ^ 63 \<le> l")
  case True
  then have "l div 2 ^ 63 = (l - 2 ^ 63) div 2 ^ 63 + 1" by (intro div_pos_geq) simp_all
  moreover from True assms have "(l - 2 ^ 63) div 2 ^ 63 = 0" by simp
  ultimately show ?thesis using True by (simp add: drop_bit_eq_div)
next
  case False
  with assms have "l div 2 ^ 63 = 0" by simp
  with False show ?thesis by (simp add: drop_bit_eq_div)
qed

lemma pv_snoc_list: "pv (Suc (length xs)) (xs @ [b]) = 2 * pv (length xs) xs + b"
  using pv_append [of xs 1 "[b]"] by (simp add: nth0_def pv_append_left)

lemma enc_shift_out:
  assumes "interval_ok e"
  shows "enc_shift e =
    \<lparr>encoded_data = (encoded_data (sub e) @ [if 2 ^ 63 \<le> low e then 1 else 0])
        @ replicate (num_underflow (sub e)) (if 2 ^ 63 \<le> low e then 0 else 1),
     num_underflow = 0\<rparr>"
proof -
  from assms have "0 \<le> low e" "low e < 2 ^ 64" by (simp_all add: interval_ok_def full_range_eq)
  from top_bit [OF this] show ?thesis
    by (simp add: enc_shift_def NUM_STATE_BITS_def Let_def)
qed

lemma shift_ghost:
  assumes "interval_ok e"
  shows "consumed (msb_body enc_shift e) = Suc (consumed e)"
    and "offset_of (msb_body enc_shift e)
         = 2 * offset_of e + (if 2 ^ 63 \<le> low e then 2 ^ 64 else 0)"
proof -
  define out where "out = encoded_data (sub e)"
  define nu where "nu = num_underflow (sub e)"
  define b :: int where "b = (if 2 ^ 63 \<le> low e then 1 else 0)"
  have s: "sub (msb_body enc_shift e) = \<lparr>encoded_data = (out @ [b]) @ replicate nu (1 - b), num_underflow = 0\<rparr>"
    unfolding msb_body_def coder.simps enc_shift_out [OF assms] by (simp add: out_def nu_def b_def)
  show "consumed (msb_body enc_shift e) = Suc (consumed e)"
    by (simp add: consumed_def s out_def nu_def)
  have "pv (length (out @ [b]) + nu) ((out @ [b]) @ replicate nu (1 - b))
        = pv (length (out @ [b])) (out @ [b]) * 2 ^ nu + pv nu (replicate nu (1 - b))"
    by (rule pv_append)
  also have "\<dots> = (2 * pv (length out) out + b) * 2 ^ nu + (1 - b) * (2 ^ nu - 1)"
    using pv_snoc_list [of out b] by (simp add: pv_replicate)
  finally have v: "pv (length ((out @ [b]) @ replicate nu (1 - b))) ((out @ [b]) @ replicate nu (1 - b))
        = (2 * pv (length out) out + b) * 2 ^ nu + (1 - b) * (2 ^ nu - 1)" by simp
  have o: "offset_of e = pv (length out) out * 2 ^ (64 + nu) + (2 ^ nu - 1) * 2 ^ 63"
    by (simp add: offset_of_def out_def nu_def)
  have "offset_of (msb_body enc_shift e)
        = ((2 * pv (length out) out + b) * 2 ^ nu + (1 - b) * (2 ^ nu - 1)) * 2 ^ 64"
    unfolding offset_of_def s enc_fields.simps v by simp
  also have "\<dots> = 2 * offset_of e + b * 2 ^ 64"
  proof (cases "2 ^ 63 \<le> low e")
    case True
    then have "b = 1" by (simp add: b_def)
    then show ?thesis unfolding o by (simp add: algebra_simps power_add)
  next
    case False
    then have "b = 0" by (simp add: b_def)
    then show ?thesis unfolding o by (simp add: algebra_simps power_add)
  qed
  finally show "offset_of (msb_body enc_shift e)
         = 2 * offset_of e + (if 2 ^ 63 \<le> low e then 2 ^ 64 else 0)"
    by (simp add: b_def)
qed

lemma underflow_ghost:
  shows "consumed (underflow_body enc_underflow e) = Suc (consumed e)"
    and "offset_of (underflow_body enc_underflow e) = 2 * offset_of e + 2 ^ 63"
  by (simp_all add: consumed_def offset_of_def underflow_body_def enc_underflow_def
      algebra_simps power_add)

lemma pv_step: "pv (64 + Suc k) S = 2 * pv (64 + k) S + nth0 S (64 + k)"
  by (simp only: add_Suc_right pv.simps)

lemma code_of_shift:
  assumes "interval_ok e"
  shows "code_of (msb_body enc_shift e) S
         = 2 * code_of e S + nth0 S (64 + consumed e) - (if 2 ^ 63 \<le> low e then 2 ^ 64 else 0)"
  unfolding code_of_def shift_ghost [OF assms] pv_step by simp

lemma code_of_underflow:
  "code_of (underflow_body enc_underflow e) S
   = 2 * code_of e S + nth0 S (64 + consumed e) - 2 ^ 63"
  unfolding code_of_def underflow_ghost pv_step by simp

lemma even_or_bit:
  assumes "even (x::int)" "r = 0 \<or> r = 1"
  shows "x OR r = x + r"
  using assms by (auto simp add: or_one_eq)

lemma dec_shift_code:
  assumes "0 \<le> c" "c < 2 ^ 64" "r = 0 \<or> r = 1"
  shows "((push_bit 1 c) AND state_mask) OR r = (if c < 2 ^ 63 then 2 * c else 2 * c - 2 ^ 64) + r"
proof -
  have "even ((push_bit 1 c) AND state_mask)" unfolding shl_mask by (simp add: dvd_mod_iff)
  from even_or_bit [OF this assms(3)] show ?thesis
    by (simp only: msb_step_low [OF assms(1,2)])
qed

lemma and_exp_int: "(c::int) AND 2 ^ n = (if bit c n then 2 ^ n else 0)"
  by (rule bit_eqI) (auto simp add: bit_and_iff bit_exp_iff)

lemma and_half: "(c::int) AND half_range = (if bit c 63 then 2 ^ 63 else 0)"
  unfolding half_range_eq by (rule and_exp_int)

lemma drop_mask: "drop_bit 1 state_mask = mask 63"
  unfolding state_mask_eq by (simp add: drop_bit_mask_eq)

lemma shl_mask63: "(push_bit 1 c) AND (drop_bit 1 state_mask) = (2 * c) mod 2 ^ 63"
  unfolding drop_mask
  by (simp add: push_bit_eq_mult take_bit_eq_mod mult.commute flip: take_bit_eq_mask)

lemma mod_sub_twice: "(x - 2 * m) mod m = x mod (m::int)"
  using mod_mult_self1 [of x "- 2" m] by simp

lemma dec_underflow_code:
  assumes "2 ^ 62 \<le> c" "c < 2 ^ 63 + 2 ^ 62" "r = 0 \<or> r = 1"
  shows "((c AND half_range) OR ((push_bit 1 c) AND (drop_bit 1 state_mask))) OR r
         = 2 * c - 2 ^ 63 + r"
proof -
  have b: "0 \<le> c" "c < 2 ^ 64" using assms by simp_all
  have main: "(c AND half_range) OR ((2 * c) mod 2 ^ 63) = 2 * c - 2 ^ 63"
  proof (cases "c < 2 ^ 63")
    case True
    then have "\<not> bit c 63" using bit63_iff [OF b] by simp
    then have "c AND half_range = 0" by (simp add: and_half)
    moreover have "(2 * c) mod 2 ^ 63 = 2 * c - 2 ^ 63"
    proof -
      have "(2 * c) mod 2 ^ 63 = (2 * c - 2 ^ 63) mod 2 ^ 63"
        by (rule minus_mod_self2 [symmetric])
      also have "\<dots> = 2 * c - 2 ^ 63"
        by (rule mod_pos_pos_trivial) (use True assms in simp_all)
      finally show ?thesis .
    qed
    ultimately show ?thesis by simp
  next
    case False
    then have "bit c 63" using bit63_iff [OF b] by simp
    then have "c AND half_range = 2 ^ 63" by (simp only: and_half if_True)
    then have h: "c AND half_range = half_range" by (simp only: half_range_eq)
    have m: "(2 * c) mod 2 ^ 63 = 2 * c - 2 ^ 64"
    proof -
      have "(2 * c) mod 2 ^ 63 = (2 * c - 2 * 2 ^ 63) mod 2 ^ 63"
        by (rule mod_sub_twice [symmetric])
      also have "\<dots> = 2 * c - 2 * 2 ^ 63"
        by (rule mod_pos_pos_trivial) (use False assms in simp_all)
      finally show ?thesis by simp
    qed
    have "\<not> bit (2 * c - 2 ^ 64) 63"
      using bit63_iff [of "2 * c - 2 ^ 64"] False assms by simp
    then have "(2 * c - 2 ^ 64) OR half_range = (2 * c - 2 ^ 64) + 2 ^ 63" by (rule or_half_unset)
    then show ?thesis unfolding h m by (simp add: or.commute)
  qed
  have "even (2 * c - (2 ^ 63 :: int))" by simp
  from even_or_bit [OF this assms(3)] show ?thesis
    unfolding shl_mask63 main .
qed

lemma read_code_bit_drop: "read_code_bit (drop n S) = (nth0 S n, drop (Suc n) S)"
  by (simp add: read_code_bit_eq nth0_drop drop_Suc tl_drop)

lemma read_bit_dec_of:
  "read_code_bit (input (sub (dec_of e S))) = (nth0 S (64 + consumed e), drop (64 + Suc (consumed e)) S)"
  by (simp add: dec_of_def read_code_bit_drop)

lemma tracks_bounds:
  assumes "tracks e S" "interval_ok e"
  shows "0 \<le> code_of e S" "code_of e S < 2 ^ 64" "low e \<le> code_of e S" "code_of e S \<le> high e"
  using assms by (simp_all add: tracks_def interval_ok_def full_range_eq)

lemma shift_backward:
  assumes "interval_ok e" "high e < 2 ^ 63 \<or> 2 ^ 63 \<le> low e" "tracks (msb_body enc_shift e) S"
  shows "tracks e S"
proof -
  from assms(3) have ok: "bits_ok S" by (simp add: tracks_def)
  have r: "nth0 S (64 + consumed e) = 0 \<or> nth0 S (64 + consumed e) = 1" by (rule nth0_bit [OF ok])
  from assms(3) have "low (msb_body enc_shift e) \<le> code_of (msb_body enc_shift e) S"
    "code_of (msb_body enc_shift e) S \<le> high (msb_body enc_shift e)"
    by (simp_all add: tracks_def)
  then show ?thesis
    unfolding msb_body_arith [OF assms(1,2)] code_of_shift [OF assms(1)] tracks_def
    using r ok by auto
qed

lemma shift_forward:
  assumes "interval_ok e" "high e < 2 ^ 63 \<or> 2 ^ 63 \<le> low e" "tracks e S"
  shows "msb_body dec_shift (dec_of e S) = dec_of (msb_body enc_shift e) S"
proof -
  from assms(3) have ok: "bits_ok S" by (simp add: tracks_def)
  have r: "nth0 S (64 + consumed e) = 0 \<or> nth0 S (64 + consumed e) = 1" by (rule nth0_bit [OF ok])
  note b = tracks_bounds [OF assms(3,1)]
  have i: "interval_ok (dec_of e S)" using assms(1) by (simp add: interval_ok_def dec_of_def)
  have c: "high (dec_of e S) < 2 ^ 63 \<or> 2 ^ 63 \<le> low (dec_of e S)"
    using assms(2) by (simp add: dec_of_def)
  have lh: "low (msb_body dec_shift (dec_of e S)) = low (msb_body enc_shift e)"
    "high (msb_body dec_shift (dec_of e S)) = high (msb_body enc_shift e)"
    unfolding msb_body_arith [OF i c] msb_body_arith [OF assms(1,2)] by (simp_all add: dec_of_def)
  have cd: "code (dec_shift (dec_of e S)) = code_of (msb_body enc_shift e) S"
    unfolding dec_shift_def read_bit_dec_of code_of_shift [OF assms(1)]
    using dec_shift_code [OF b(1,2) r] assms(2) b(3,4)
    by (auto simp add: dec_of_def)
  have inp: "input (dec_shift (dec_of e S)) = drop (64 + consumed (msb_body enc_shift e)) S"
    unfolding dec_shift_def read_bit_dec_of shift_ghost [OF assms(1)] by simp
  have "sub (msb_body dec_shift (dec_of e S)) = sub (dec_of (msb_body enc_shift e) S)"
    unfolding msb_body_arith(3) [OF i c] using cd inp by (simp add: dec_of_def)
  with lh show ?thesis by (simp add: dec_of_def)
qed

lemma underflow_backward:
  assumes "straddles e" "2 ^ 62 \<le> low e \<and> high e < 2 ^ 63 + 2 ^ 62"
    "tracks (underflow_body enc_underflow e) S"
  shows "tracks e S"
proof -
  from assms(3) have ok: "bits_ok S" by (simp add: tracks_def)
  have r: "nth0 S (64 + consumed e) = 0 \<or> nth0 S (64 + consumed e) = 1" by (rule nth0_bit [OF ok])
  from assms(3) have "low (underflow_body enc_underflow e) \<le> code_of (underflow_body enc_underflow e) S"
    "code_of (underflow_body enc_underflow e) S \<le> high (underflow_body enc_underflow e)"
    by (simp_all add: tracks_def)
  then show ?thesis
    unfolding underflow_body_arith [OF assms(1,2)] code_of_underflow tracks_def
    using r ok by auto
qed

lemma underflow_forward:
  assumes "straddles e" "2 ^ 62 \<le> low e \<and> high e < 2 ^ 63 + 2 ^ 62" "tracks e S"
  shows "underflow_body dec_underflow (dec_of e S) = dec_of (underflow_body enc_underflow e) S"
proof -
  from assms(3) have ok: "bits_ok S" by (simp add: tracks_def)
  have r: "nth0 S (64 + consumed e) = 0 \<or> nth0 S (64 + consumed e) = 1" by (rule nth0_bit [OF ok])
  from assms(3) have b: "low e \<le> code_of e S" "code_of e S \<le> high e" by (simp_all add: tracks_def)
  have b2: "2 ^ 62 \<le> code_of e S" "code_of e S < 2 ^ 63 + 2 ^ 62" using b assms(2) by simp_all
  have i: "straddles (dec_of e S)" using assms(1) by (simp add: straddles_def dec_of_def)
  have c: "2 ^ 62 \<le> low (dec_of e S) \<and> high (dec_of e S) < 2 ^ 63 + 2 ^ 62"
    using assms(2) by (simp add: dec_of_def)
  have lh: "low (underflow_body dec_underflow (dec_of e S)) = low (underflow_body enc_underflow e)"
    "high (underflow_body dec_underflow (dec_of e S)) = high (underflow_body enc_underflow e)"
    unfolding underflow_body_arith [OF i c] underflow_body_arith [OF assms(1,2)]
    by (simp_all add: dec_of_def)
  have cd: "code (dec_underflow (dec_of e S)) = code_of (underflow_body enc_underflow e) S"
    unfolding dec_underflow_def read_bit_dec_of code_of_underflow
    using dec_underflow_code [OF b2 r] by (simp add: dec_of_def)
  have inp: "input (dec_underflow (dec_of e S))
             = drop (64 + consumed (underflow_body enc_underflow e)) S"
    unfolding dec_underflow_def read_bit_dec_of underflow_ghost by simp
  have "sub (underflow_body dec_underflow (dec_of e S))
        = sub (dec_of (underflow_body enc_underflow e) S)"
    unfolding underflow_body_arith(3) [OF i c] using cd inp by (simp add: dec_of_def)
  with lh show ?thesis by (simp add: dec_of_def)
qed

lemma msb_sim:
  "interval_ok e \<Longrightarrow> tracks (msb_loop enc_shift e) S \<Longrightarrow>
   tracks e S \<and> msb_loop dec_shift (dec_of e S) = dec_of (msb_loop enc_shift e) S"
proof (induction sh\<equiv>"enc_shift" e rule: msb_loop.induct)
  case (1 e)
  have dl: "low (dec_of e S) = low e" "high (dec_of e S) = high e" by (simp_all add: dec_of_def)
  show ?case
  proof (cases "((low e XOR high e) AND half_range) = 0")
    case True
    then have c: "high e < 2 ^ 63 \<or> 2 ^ 63 \<le> low e"
      using msb_cond_arith [OF "1.prems"(1)] by simp
    have i: "interval_ok (msb_body enc_shift e)" by (rule msb_body_interval_ok [OF "1.prems"(1) c])
    have t: "tracks (msb_loop enc_shift (msb_body enc_shift e)) S"
      using "1.prems"(2) by (simp only: msb_loop_true [OF True])
    from "1.hyps" [OF True i t]
    have ih: "tracks (msb_body enc_shift e) S"
      "msb_loop dec_shift (dec_of (msb_body enc_shift e) S)
       = dec_of (msb_loop enc_shift (msb_body enc_shift e)) S" by simp_all
    have tr: "tracks e S" by (rule shift_backward [OF "1.prems"(1) c ih(1)])
    have "msb_loop dec_shift (dec_of e S) = msb_loop dec_shift (msb_body dec_shift (dec_of e S))"
      by (rule msb_loop_true) (simp only: dl True)
    also have "\<dots> = dec_of (msb_loop enc_shift (msb_body enc_shift e)) S"
      by (simp only: shift_forward [OF "1.prems"(1) c tr] ih(2))
    also have "\<dots> = dec_of (msb_loop enc_shift e) S" by (simp only: msb_loop_true [OF True])
    finally show ?thesis using tr by simp
  next
    case False
    have "msb_loop dec_shift (dec_of e S) = dec_of e S"
      by (rule msb_loop_false) (simp only: dl False not_False_eq_True)
    then show ?thesis using "1.prems"(2) by (simp add: msb_loop_false [OF False])
  qed
qed

lemma underflow_sim:
  "straddles e \<Longrightarrow> tracks (underflow_loop enc_underflow e) S \<Longrightarrow>
   tracks e S \<and> underflow_loop dec_underflow (dec_of e S) = dec_of (underflow_loop enc_underflow e) S"
proof (induction u\<equiv>"enc_underflow" e rule: underflow_loop.induct)
  case (1 e)
  have dl: "low (dec_of e S) = low e" "high (dec_of e S) = high e" by (simp_all add: dec_of_def)
  show ?case
  proof (cases "((low e AND NOT (high e)) AND quarter_range) \<noteq> 0")
    case True
    then have c: "2 ^ 62 \<le> low e \<and> high e < 2 ^ 63 + 2 ^ 62"
      using underflow_cond_arith [OF "1.prems"(1)] by simp
    have i: "straddles (underflow_body enc_underflow e)"
      by (rule underflow_body_straddles [OF "1.prems"(1) c])
    have t: "tracks (underflow_loop enc_underflow (underflow_body enc_underflow e)) S"
      using "1.prems"(2) by (simp only: underflow_loop_true [OF True])
    from "1.hyps" [OF True i t]
    have ih: "tracks (underflow_body enc_underflow e) S"
      "underflow_loop dec_underflow (dec_of (underflow_body enc_underflow e) S)
       = dec_of (underflow_loop enc_underflow (underflow_body enc_underflow e)) S" by simp_all
    have tr: "tracks e S" by (rule underflow_backward [OF "1.prems"(1) c ih(1)])
    have "underflow_loop dec_underflow (dec_of e S)
          = underflow_loop dec_underflow (underflow_body dec_underflow (dec_of e S))"
      by (rule underflow_loop_true) (use True in \<open>simp add: dl\<close>)
    also have "\<dots> = dec_of (underflow_loop enc_underflow (underflow_body enc_underflow e)) S"
      by (simp only: underflow_forward [OF "1.prems"(1) c tr] ih(2))
    also have "\<dots> = dec_of (underflow_loop enc_underflow e) S"
      by (simp only: underflow_loop_true [OF True])
    finally show ?thesis using tr by simp
  next
    case False
    then have f: "((low e AND NOT (high e)) AND quarter_range) = 0" by simp
    have "underflow_loop dec_underflow (dec_of e S) = dec_of e S"
      by (rule underflow_loop_false) (simp only: dl f)
    then show ?thesis using "1.prems"(2) by (simp add: underflow_loop_false [OF f])
  qed
qed

lemma filter_sorted_prefix:
  assumes "k \<le> length c" "\<And>i. i < k \<Longrightarrow> P (c ! i)" "\<And>i. k \<le> i \<Longrightarrow> i < length c \<Longrightarrow> \<not> P (c ! i)"
  shows "length (filter P c) = k"
proof -
  have "filter P (take k c) = take k c"
    using assms(1,2) by (auto simp add: filter_id_conv in_set_conv_nth)
  moreover have "filter P (drop k c) = []"
    using assms(3) by (auto simp add: filter_empty_conv in_set_conv_nth)
  moreover have "filter P c = filter P (take k c) @ filter P (drop k c)"
    by (simp flip: filter_append)
  ultimately show ?thesis using assms(1) by simp
qed

lemma searchsorted_right_eq:
  assumes "valid_cdf c" "symbol_ok c symbol" "sym_low c symbol \<le> v" "v < sym_high c symbol"
  shows "searchsorted_right c v = symbol"
proof -
  from assms(2) have n: "nat symbol < length c" "0 \<le> symbol"
    by (simp_all add: symbol_ok_def nat_less_iff)
  from assms(1) have so: "sorted_wrt (<) c" by (simp add: valid_cdf_def)
  have "length (filter (\<lambda>x. x \<le> v) c) = nat symbol"
  proof (rule filter_sorted_prefix)
    show "nat symbol \<le> length c" using n by simp
  next
    fix i assume i: "i < nat symbol"
    then have pos: "symbol > 0" by simp
    have "c ! i \<le> c ! nat (symbol - 1)"
    proof (cases "i = nat (symbol - 1)")
      case True then show ?thesis by simp
    next
      case False
      with i have "i < nat (symbol - 1)" by linarith
      then have "c ! i < c ! nat (symbol - 1)"
        using sorted_wrt_nth_less [OF so, of i "nat (symbol - 1)"] n by simp
      then show ?thesis by simp
    qed
    also have "\<dots> = sym_low c symbol" using pos by (simp add: sym_low_def)
    finally show "c ! i \<le> v" using assms(3) by simp
  next
    fix i assume i: "nat symbol \<le> i" "i < length c"
    have "c ! nat symbol \<le> c ! i"
    proof (cases "i = nat symbol")
      case True then show ?thesis by simp
    next
      case False
      with i have "nat symbol < i" by simp
      then have "c ! nat symbol < c ! i"
        using sorted_wrt_nth_less [OF so, of "nat symbol" i] i by simp
      then show ?thesis by simp
    qed
    then show "\<not> c ! i \<le> v" using assms(4) by (simp add: sym_high_def)
  qed
  then show ?thesis using n by (simp add: searchsorted_right_def)
qed

lemma int_div_le_iff:
  assumes "0 < (T::int)"
  shows "(k \<le> x div T) = (k * T \<le> x)"
proof
  assume "k \<le> x div T"
  then have "k * T \<le> (x div T) * T" using assms by (intro mult_right_mono) simp_all
  also have "\<dots> \<le> x"
  proof -
    have "0 \<le> x mod T" using assms by simp
    then show ?thesis using div_mult_mod_eq [of x T] by linarith
  qed
  finally show "k * T \<le> x" .
next
  assume "k * T \<le> x"
  then have "(k * T) div T \<le> x div T" using assms by (intro zdiv_mono1) simp_all
  then show "k \<le> x div T" using assms by simp
qed

lemma int_div_less_iff:
  assumes "0 < (T::int)"
  shows "(x div T < k) = (x < k * T)"
  using int_div_le_iff [OF assms, of k x] by auto

lemma decode_value:
  assumes "0 < T" "0 < R"
    "a * R div T \<le> off" "off + 1 \<le> b * R div (T::int)"
  shows "a \<le> ((off + 1) * T - 1) div R" "((off + 1) * T - 1) div R < b"
proof -
  from assms(3) have "a * R div T < off + 1" by simp
  then have "a * R < (off + 1) * T" by (simp only: int_div_less_iff [OF assms(1)])
  then have "a * R \<le> (off + 1) * T - 1" by simp
  then show "a \<le> ((off + 1) * T - 1) div R" by (simp only: int_div_le_iff [OF assms(2)])
  from assms(4) have "(off + 1) * T \<le> b * R" by (simp only: int_div_le_iff [OF assms(1)])
  then have "(off + 1) * T - 1 < b * R" by simp
  then show "((off + 1) * T - 1) div R < b" by (simp only: int_div_less_iff [OF assms(2)])
qed

lemma narrow_dec_of: "narrow c symbol (dec_of e S) = dec_of (narrow c symbol e) S"
  by (simp add: narrow_def dec_of_def consumed_def code_of_def offset_of_def)

lemma code_of_narrow: "code_of (narrow c symbol e) S = code_of e S"
  by (simp add: narrow_def consumed_def code_of_def offset_of_def)

lemma update_sim:
  assumes "normalized e" "valid_cdf c" "symbol_ok c symbol"
    "encode_symbol c symbol e = Inr e'" "tracks e' S"
  shows "tracks e S" and "decode_symbol c (dec_of e S) = Inr (symbol, dec_of e' S)"
proof -
  define n where "n = narrow c symbol e"
  define m where "m = msb_loop enc_shift n"
  have e': "e' = underflow_loop enc_underflow m"
    using assms(4) unfolding encode_symbol_def update_eq [OF assms(2,3)] m_def n_def by simp
  have i: "interval_ok n" unfolding n_def by (rule narrow_interval_ok [OF assms(1,2,3)])
  have st: "straddles m" unfolding m_def by (rule msb_loop_straddles [OF i])
  from underflow_sim [OF st] assms(5)
  have tm: "tracks m S" and um: "underflow_loop dec_underflow (dec_of m S) = dec_of e' S"
    by (simp_all add: e')
  from msb_sim [OF i] tm
  have tn: "tracks n S" and mn: "msb_loop dec_shift (dec_of n S) = dec_of m S"
    by (simp_all add: m_def)
  have rg: "last c \<le> high e - low e + 1"
    using sym_bounds(5) [OF assms(2,3)] normalized_range(1) [OF assms(1)] by simp
  note nb = narrow_bounds [OF assms(2,3) rg]
  from tn have cn: "bits_ok S" "low n \<le> code_of e S" "code_of e S \<le> high n"
    by (simp_all add: tracks_def n_def code_of_narrow)
  show te: "tracks e S" using cn nb(1,3) by (simp add: tracks_def n_def)
  define R where "R = high e - low e + 1"
  define T where "T = last c"
  define off where "off = code_of e S - low e"
  have TR: "0 < T" "0 < R"
    using sym_bounds(4) [OF assms(2,3)] normalized_range(1) [OF assms(1)]
    by (simp_all add: T_def R_def)
  have lo: "sym_low c symbol * R div T \<le> off"
    using cn(2) by (simp add: n_def narrow_def off_def R_def T_def)
  have hi: "off + 1 \<le> sym_high c symbol * R div T"
    using cn(3) by (simp add: n_def narrow_def off_def R_def T_def)
  note v = decode_value [OF TR lo hi]
  have ss: "searchsorted_right c (((off + 1) * T - 1) div R) = symbol"
    by (rule searchsorted_right_eq [OF assms(2,3) v])
  from assms(2) have ne: "c \<noteq> []" by (simp add: valid_cdf_def)
  have up: "update dec_shift dec_underflow c symbol (dec_of e S) = Inr (dec_of e' S)"
    unfolding update_eq [OF assms(2,3)] narrow_dec_of
    using mn um by (simp add: n_def)
  have dl: "high (dec_of e S) - low (dec_of e S) + 1 = R"
    "code (sub (dec_of e S)) - low (dec_of e S) = off"
    by (simp_all add: dec_of_def R_def off_def)
  show "decode_symbol c (dec_of e S) = Inr (symbol, dec_of e' S)"
    unfolding decode_symbol_def py_index_last [OF ne] dl
    using TR(2) ss up by (simp add: Let_def T_def)
qed

lemma encode_symbol_normalized:
  assumes "normalized e" "valid_cdf c" "symbol_ok c symbol"
  shows "\<exists>e'. encode_symbol c symbol e = Inr e' \<and> normalized e'"
  unfolding encode_symbol_def by (rule update_normalized [OF assms])

lemma pairs_ok_Cons:
  "list_all (\<lambda>(c, symbol). valid_cdf c \<and> symbol_ok c symbol) ((c, symbol) # xs)
   = (valid_cdf c \<and> symbol_ok c symbol \<and> list_all (\<lambda>(c, symbol). valid_cdf c \<and> symbol_ok c symbol) xs)"
  by simp

lemma bits_ok_append: "bits_ok (xs @ ys) = (bits_ok xs \<and> bits_ok ys)"
  by (simp add: bits_ok_def)

lemma msb_loop_bits_ok:
  "interval_ok e \<Longrightarrow> bits_ok (encoded_data (sub e)) \<Longrightarrow>
   bits_ok (encoded_data (sub (msb_loop enc_shift e)))"
proof (induction sh\<equiv>"enc_shift" e rule: msb_loop.induct)
  case (1 e)
  show ?case
  proof (cases "((low e XOR high e) AND half_range) = 0")
    case True
    then have c: "high e < 2 ^ 63 \<or> 2 ^ 63 \<le> low e"
      using msb_cond_arith [OF "1.prems"(1)] by simp
    have i: "interval_ok (msb_body enc_shift e)" by (rule msb_body_interval_ok [OF "1.prems"(1) c])
    have "bits_ok (encoded_data (sub (msb_body enc_shift e)))"
      unfolding msb_body_arith(3) [OF "1.prems"(1) c] enc_shift_out [OF "1.prems"(1)]
      using "1.prems"(2) by (auto simp add: bits_ok_def list_all_iff)
    from "1.hyps" [OF True i this] show ?thesis by (simp only: msb_loop_true [OF True])
  next
    case False
    then show ?thesis using "1.prems"(2) by (simp add: msb_loop_false)
  qed
qed

lemma underflow_loop_out:
  "encoded_data (sub (underflow_loop enc_underflow e)) = encoded_data (sub e)"
proof (induction u\<equiv>"enc_underflow" e rule: underflow_loop.induct)
  case (1 e)
  show ?case
  proof (cases "((low e AND NOT (high e)) AND quarter_range) \<noteq> 0")
    case True
    from "1.hyps" [OF True] show ?thesis
      by (simp add: underflow_loop_true [OF True] underflow_body_def enc_underflow_def)
  next
    case False
    then show ?thesis by (simp add: underflow_loop_false)
  qed
qed

lemma encode_symbol_ok:
  assumes "normalized e" "bits_ok (encoded_data (sub e))" "valid_cdf c" "symbol_ok c symbol"
  shows "\<exists>e'. encode_symbol c symbol e = Inr e' \<and> normalized e' \<and> bits_ok (encoded_data (sub e'))"
proof -
  have i: "interval_ok (narrow c symbol e)" by (rule narrow_interval_ok [OF assms(1,3,4)])
  have b: "bits_ok (encoded_data (sub (narrow c symbol e)))"
    using assms(2) by (simp add: narrow_def)
  have "bits_ok (encoded_data (sub (underflow_loop enc_underflow
          (msb_loop enc_shift (narrow c symbol e)))))"
    unfolding underflow_loop_out by (rule msb_loop_bits_ok [OF i b])
  moreover have "normalized (underflow_loop enc_underflow (msb_loop enc_shift (narrow c symbol e)))"
    by (rule underflow_loop_normalized [OF msb_loop_straddles [OF i]])
  ultimately show ?thesis
    unfolding encode_symbol_def update_eq [OF assms(3,4)] by simp
qed

lemma pv_single: "pv (Suc j) [1] = 2 ^ j"
  unfolding pv_cons by (simp add: nth0_def pv_zero_tail)

lemma finish_tracks:
  assumes "normalized e" "bits_ok (encoded_data (sub e))"
  shows "tracks e (get_encoded (finish e))"
proof -
  define out where "out = encoded_data (sub e)"
  define nu where "nu = num_underflow (sub e)"
  have S: "get_encoded (finish e) = out @ [1]" by (simp add: get_encoded_def finish_def out_def)
  have "pv (length out + Suc (63 + nu)) (out @ [1]) = pv (length out) out * 2 ^ Suc (63 + nu) + pv (Suc (63 + nu)) [1]"
    by (rule pv_append)
  also have "\<dots> = pv (length out) out * 2 ^ (64 + nu) + 2 ^ (63 + nu)"
    unfolding pv_single by simp
  finally have p: "pv (length out + Suc (63 + nu)) (out @ [1])
                   = pv (length out) out * 2 ^ (64 + nu) + 2 ^ (63 + nu)" .
  have k: "64 + consumed e = length out + Suc (63 + nu)"
    by (simp add: consumed_def out_def nu_def)
  have "code_of e (out @ [1]) = pv (length out) out * 2 ^ (64 + nu) + 2 ^ (63 + nu) - offset_of e"
    by (simp only: code_of_def k p)
  also have "\<dots> = 2 ^ 63"
    by (simp add: offset_of_def out_def nu_def algebra_simps power_add)
  finally have "code_of e (out @ [1]) = 2 ^ 63" .
  moreover have "low e \<le> 2 ^ 63" "2 ^ 63 \<le> high e"
    using assms(1) by (simp_all add: normalized_def straddles_def half_range_eq)
  moreover have "bits_ok (out @ [1])" using assms(2) by (simp add: bits_ok_def out_def)
  ultimately show ?thesis unfolding S tracks_def by simp
qed

lemma coder_sim:
  assumes "normalized e" "bits_ok (encoded_data (sub e))"
    "list_all (\<lambda>(c, symbol). valid_cdf c \<and> symbol_ok c symbol) xs"
  shows "\<exists>e'. encode_all xs e = Inr e' \<and> normalized e' \<and> bits_ok (encoded_data (sub e')) \<and>
           (\<forall>S. tracks e' S \<longrightarrow>
              tracks e S \<and> decode_all (map fst xs) (dec_of e S) = Inr (map snd xs, dec_of e' S))"
  using assms
proof (induction xs arbitrary: e)
  case Nil
  then show ?case by simp
next
  case (Cons x xs)
  obtain c symbol where x: "x = (c, symbol)" by (cases x)
  from Cons.prems(3) have v: "valid_cdf c" "symbol_ok c symbol"
    and rest: "list_all (\<lambda>(c, symbol). valid_cdf c \<and> symbol_ok c symbol) xs"
    by (simp_all add: x)
  from encode_symbol_ok [OF Cons.prems(1,2) v]
  obtain e1 where e1: "encode_symbol c symbol e = Inr e1" "normalized e1"
    "bits_ok (encoded_data (sub e1))" by blast
  from Cons.IH [OF e1(2,3) rest]
  obtain e' where e': "encode_all xs e1 = Inr e'" "normalized e'" "bits_ok (encoded_data (sub e'))"
    and sim: "\<And>S. tracks e' S \<Longrightarrow>
       tracks e1 S \<and> decode_all (map fst xs) (dec_of e1 S) = Inr (map snd xs, dec_of e' S)"
    by blast
  have "tracks e S \<and> decode_all (map fst (x # xs)) (dec_of e S) = Inr (map snd (x # xs), dec_of e' S)"
    if t: "tracks e' S" for S
  proof -
    from sim [OF t] have t1: "tracks e1 S"
      and d: "decode_all (map fst xs) (dec_of e1 S) = Inr (map snd xs, dec_of e' S)" by simp_all
    from update_sim [OF Cons.prems(1) v e1(1) t1]
    show ?thesis by (simp add: x d)
  qed
  then show ?case using e' e1(1) by (simp add: x)
qed

lemma Encoder_init_ok: "normalized Encoder_init" "bits_ok (encoded_data (sub Encoder_init))"
  by (simp_all add: normalized_def straddles_def Encoder_init_def state_mask_def full_range_eq
      half_range_eq quarter_range_eq bits_ok_def)

lemma dec_of_init: "dec_of Encoder_init S = Decoder_init S"
  by (simp add: dec_of_def Decoder_init_def Encoder_init_def NUM_STATE_BITS_def read_code_eq
      code_of_def consumed_def offset_of_def del: pv.simps(2))

section \<open>The decoder on its own\<close>

text \<open>
  What the decoder keeps true on any input of bits, whether or not an encoder wrote
  them: the code stays inside the interval.
\<close>

definition code_in :: "decoder \<Rightarrow> bool" where
  "code_in d \<longleftrightarrow> low d \<le> code (sub d) \<and> code (sub d) \<le> high d \<and> bits_ok (input (sub d))"

lemma bits_ok_tl: "bits_ok bs \<Longrightarrow> bits_ok (tl bs)"
  by (cases bs) (simp_all add: bits_ok_def)

lemma dec_shift_step:
  assumes "interval_ok d" "high d < 2 ^ 63 \<or> 2 ^ 63 \<le> low d" "code_in d"
  shows "code_in (msb_body dec_shift d)"
proof -
  from assms(3) have ok: "bits_ok (input (sub d))" and b: "low d \<le> code (sub d)" "code (sub d) \<le> high d"
    by (simp_all add: code_in_def)
  have r: "nth0 (input (sub d)) 0 = 0 \<or> nth0 (input (sub d)) 0 = 1" by (rule nth0_bit [OF ok])
  from assms(1) b have cb: "0 \<le> code (sub d)" "code (sub d) < 2 ^ 64"
    by (simp_all add: interval_ok_def full_range_eq)
  have s: "sub (msb_body dec_shift d) =
           \<lparr>input = tl (input (sub d)),
            code = (if code (sub d) < 2 ^ 63 then 2 * code (sub d) else 2 * code (sub d) - 2 ^ 64)
                   + nth0 (input (sub d)) 0\<rparr>"
    unfolding msb_body_arith(3) [OF assms(1,2)] dec_shift_def read_code_bit_eq
    using dec_shift_code [OF cb r] by simp
  show ?thesis
    unfolding code_in_def msb_body_arith(1,2) [OF assms(1,2)] s
    using assms(2) b r bits_ok_tl [OF ok] by auto
qed

lemma dec_underflow_step:
  assumes "straddles d" "2 ^ 62 \<le> low d \<and> high d < 2 ^ 63 + 2 ^ 62" "code_in d"
  shows "code_in (underflow_body dec_underflow d)"
proof -
  from assms(3) have ok: "bits_ok (input (sub d))" and b: "low d \<le> code (sub d)" "code (sub d) \<le> high d"
    by (simp_all add: code_in_def)
  have r: "nth0 (input (sub d)) 0 = 0 \<or> nth0 (input (sub d)) 0 = 1" by (rule nth0_bit [OF ok])
  have cb: "2 ^ 62 \<le> code (sub d)" "code (sub d) < 2 ^ 63 + 2 ^ 62" using b assms(2) by simp_all
  have s: "sub (underflow_body dec_underflow d) =
           \<lparr>input = tl (input (sub d)),
            code = 2 * code (sub d) - 2 ^ 63 + nth0 (input (sub d)) 0\<rparr>"
    unfolding underflow_body_arith(3) [OF assms(1,2)] dec_underflow_def read_code_bit_eq
    using dec_underflow_code [OF cb r] by simp
  show ?thesis
    unfolding code_in_def underflow_body_arith(1,2) [OF assms(1,2)] s
    using b r bits_ok_tl [OF ok] by auto
qed

lemma dec_msb_loop_code_in:
  "interval_ok d \<Longrightarrow> code_in d \<Longrightarrow> code_in (msb_loop dec_shift d)"
proof (induction sh\<equiv>"dec_shift" d rule: msb_loop.induct)
  case (1 d)
  show ?case
  proof (cases "((low d XOR high d) AND half_range) = 0")
    case True
    then have c: "high d < 2 ^ 63 \<or> 2 ^ 63 \<le> low d"
      using msb_cond_arith [OF "1.prems"(1)] by simp
    from "1.hyps" [OF True msb_body_interval_ok [OF "1.prems"(1) c]
        dec_shift_step [OF "1.prems"(1) c "1.prems"(2)]]
    show ?thesis by (simp only: msb_loop_true [OF True])
  next
    case False
    then show ?thesis using "1.prems"(2) by (simp add: msb_loop_false)
  qed
qed

lemma dec_underflow_loop_code_in:
  "straddles d \<Longrightarrow> code_in d \<Longrightarrow> code_in (underflow_loop dec_underflow d)"
proof (induction u\<equiv>"dec_underflow" d rule: underflow_loop.induct)
  case (1 d)
  show ?case
  proof (cases "((low d AND NOT (high d)) AND quarter_range) \<noteq> 0")
    case True
    then have c: "2 ^ 62 \<le> low d \<and> high d < 2 ^ 63 + 2 ^ 62"
      using underflow_cond_arith [OF "1.prems"(1)] by simp
    from "1.hyps" [OF True underflow_body_straddles [OF "1.prems"(1) c]
        dec_underflow_step [OF "1.prems"(1) c "1.prems"(2)]]
    show ?thesis by (simp only: underflow_loop_true [OF True])
  next
    case False
    then show ?thesis using "1.prems"(2) by (simp add: underflow_loop_false)
  qed
qed

lemma filter_le_sorted:
  "sorted_wrt (<) c \<Longrightarrow> filter (\<lambda>x. x \<le> v) c = takeWhile (\<lambda>x. x \<le> (v::int)) c"
proof (induction c)
  case Nil
  then show ?case by simp
next
  case (Cons x xs)
  show ?case
  proof (cases "x \<le> v")
    case True
    with Cons show ?thesis by simp
  next
    case False
    with Cons.prems have "\<forall>y\<in>set xs. \<not> y \<le> v" by auto
    then have "filter (\<lambda>x. x \<le> v) xs = []" by (simp add: filter_empty_conv)
    with False show ?thesis by simp
  qed
qed

lemma searchsorted_right_props:
  assumes "valid_cdf c" "0 \<le> v" "v < last c"
  shows "symbol_ok c (searchsorted_right c v)"
    and "sym_low c (searchsorted_right c v) \<le> v"
    and "v < sym_high c (searchsorted_right c v)"
proof -
  from assms(1) have so: "sorted_wrt (<) c" and ne: "c \<noteq> []" by (simp_all add: valid_cdf_def)
  define k where "k = length (takeWhile (\<lambda>x. x \<le> v) c)"
  have ss: "searchsorted_right c v = int k"
    by (simp add: searchsorted_right_def filter_le_sorted [OF so] k_def)
  have "takeWhile (\<lambda>x. x \<le> v) c \<noteq> c"
  proof
    assume "takeWhile (\<lambda>x. x \<le> v) c = c"
    then have "\<forall>x\<in>set c. x \<le> v" by (simp add: takeWhile_eq_all_conv)
    with ne have "last c \<le> v" by simp
    with assms(3) show False by simp
  qed
  then have kl: "k < length c"
    using length_takeWhile_le [of "\<lambda>x. x \<le> v" c]
    by (metis k_def le_neq_implies_less takeWhile_eq_take take_all)
  show "symbol_ok c (searchsorted_right c v)" using kl by (simp add: ss symbol_ok_def)
  have "\<not> c ! k \<le> v" unfolding k_def by (rule nth_length_takeWhile) (use kl in \<open>simp add: k_def\<close>)
  then show "v < sym_high c (searchsorted_right c v)" by (simp add: ss sym_high_def)
  show "sym_low c (searchsorted_right c v) \<le> v"
  proof (cases "k > 0")
    case True
    then have "k - 1 < length (takeWhile (\<lambda>x. x \<le> v) c)" by (simp add: k_def)
    then have "takeWhile (\<lambda>x. x \<le> v) c ! (k - 1) \<in> set (takeWhile (\<lambda>x. x \<le> v) c)"
      by (rule nth_mem)
    then have "takeWhile (\<lambda>x. x \<le> v) c ! (k - 1) \<le> v" by (auto dest: set_takeWhileD)
    moreover have "takeWhile (\<lambda>x. x \<le> v) c ! (k - 1) = c ! (k - 1)"
      by (rule takeWhile_nth) (use True in \<open>simp add: k_def\<close>)
    ultimately show ?thesis using True by (simp add: ss sym_low_def nat_diff_distrib')
  next
    case False
    then show ?thesis using assms(2) by (simp add: ss sym_low_def)
  qed
qed

lemma decode_value_conv:
  assumes "0 < T" "0 < R"
    "a \<le> ((off + 1) * T - 1) div R" "((off + 1) * T - 1) div R < (b::int)"
  shows "a * R div T \<le> off" "off + 1 \<le> b * R div T"
proof -
  from assms(3) have "a * R \<le> (off + 1) * T - 1" by (simp only: int_div_le_iff [OF assms(2)])
  then have "a * R < (off + 1) * T" by simp
  then have "a * R div T < off + 1" by (simp only: int_div_less_iff [OF assms(1)])
  then show "a * R div T \<le> off" by simp
  from assms(4) have "(off + 1) * T - 1 < b * R" by (simp only: int_div_less_iff [OF assms(2)])
  then have "(off + 1) * T \<le> b * R" by simp
  then show "off + 1 \<le> b * R div T" by (simp only: int_div_le_iff [OF assms(1)])
qed

lemma decode_value_range:
  assumes "0 < T" "0 < R" "0 \<le> off" "off < (R::int)"
  shows "0 \<le> ((off + 1) * T - 1) div R" "((off + 1) * T - 1) div R < T"
proof -
  have "0 < (off + 1) * T" using assms by simp
  then have "0 * R \<le> (off + 1) * T - 1" by simp
  then show "0 \<le> ((off + 1) * T - 1) div R" by (simp only: int_div_le_iff [OF assms(2)])
  have "(off + 1) * T \<le> R * T" using assms by (intro mult_right_mono) simp_all
  then have "(off + 1) * T - 1 < T * R" by (simp add: mult.commute)
  then show "((off + 1) * T - 1) div R < T" by (simp only: int_div_less_iff [OF assms(2)])
qed

definition dec_inv :: "decoder \<Rightarrow> bool" where
  "dec_inv d \<longleftrightarrow> normalized d \<and> code_in d"

lemma decode_symbol_inv:
  assumes "dec_inv d" "valid_cdf c"
  shows "\<exists>symbol d'. decode_symbol c d = Inr (symbol, d') \<and> symbol_ok c symbol \<and> dec_inv d'"
proof -
  from assms(1) have nd: "normalized d" and ci: "code_in d" by (simp_all add: dec_inv_def)
  define R where "R = high d - low d + 1"
  define T where "T = last c"
  define off where "off = code (sub d) - low d"
  define v where "v = ((off + 1) * T - 1) div R"
  define symbol where "symbol = searchsorted_right c v"
  from assms(2) have ne: "c \<noteq> []" by (simp add: valid_cdf_def)
  have Tpos: "0 < T" unfolding T_def
    using valid_cdf_nth_pos [OF assms(2), of "length c - 1"] ne by (simp add: last_conv_nth)
  have Rpos: "0 < R" using normalized_range(1) [OF nd] by (simp add: R_def)
  have ob: "0 \<le> off" "off < R" using ci by (simp_all add: code_in_def off_def R_def)
  note vr = decode_value_range [OF Tpos Rpos ob]
  have vr': "0 \<le> v" "v < last c" using vr by (simp_all add: v_def T_def)
  note sp = searchsorted_right_props [OF assms(2) vr']
  have so: "symbol_ok c symbol" using sp(1) by (simp add: symbol_def)
  have "sym_low c symbol \<le> ((off + 1) * T - 1) div R" "((off + 1) * T - 1) div R < sym_high c symbol"
    using sp(2,3) by (simp_all add: symbol_def v_def)
  note dv = decode_value_conv [OF Tpos Rpos this]
  define n where "n = narrow c symbol d"
  have i: "interval_ok n" unfolding n_def by (rule narrow_interval_ok [OF nd assms(2) so])
  have cn: "code_in n"
    using dv ci by (simp add: code_in_def n_def narrow_def off_def R_def T_def)
  have st: "straddles (msb_loop dec_shift n)" by (rule msb_loop_straddles [OF i])
  have c1: "code_in (msb_loop dec_shift n)" by (rule dec_msb_loop_code_in [OF i cn])
  have "dec_inv (underflow_loop dec_underflow (msb_loop dec_shift n))"
    unfolding dec_inv_def
    using underflow_loop_normalized [OF st] dec_underflow_loop_code_in [OF st c1] by simp
  moreover have "decode_symbol c d = Inr (symbol, underflow_loop dec_underflow (msb_loop dec_shift n))"
    unfolding decode_symbol_def py_index_last [OF ne]
    using Rpos update_eq [OF assms(2) so, of dec_shift dec_underflow d]
    by (simp add: Let_def R_def T_def off_def v_def symbol_def n_def)
  ultimately show ?thesis using so by blast
qed

lemma Decoder_init_inv:
  assumes "bits_ok bits"
  shows "dec_inv (Decoder_init bits)"
proof -
  have d: "Decoder_init bits = \<lparr>low = 0, high = state_mask, sub = \<lparr>input = drop 64 bits, code = pv 64 bits\<rparr>\<rparr>"
    by (simp add: Decoder_init_def NUM_STATE_BITS_def read_code_eq del: pv.simps)
  have "bits_ok (drop 64 bits)" using assms by (auto simp add: bits_ok_def list_all_iff dest: in_set_dropD)
  moreover have "0 \<le> pv 64 bits \<and> pv 64 bits < 2 ^ 64" by (rule pv_bounds [OF assms])
  ultimately show ?thesis
    unfolding d dec_inv_def normalized_def straddles_def code_in_def
    by (simp add: state_mask_def full_range_eq half_range_eq quarter_range_eq del: pv.simps)
qed

lemma decode_all_inv:
  assumes "dec_inv d" "list_all valid_cdf cs"
  shows "\<exists>symbols d'. decode_all cs d = Inr (symbols, d') \<and> dec_inv d'
           \<and> list_all2 symbol_ok cs symbols"
  using assms
proof (induction cs arbitrary: d)
  case Nil
  then show ?case by simp
next
  case (Cons c cs)
  from Cons.prems(2) have v: "valid_cdf c" "list_all valid_cdf cs" by simp_all
  from decode_symbol_inv [OF Cons.prems(1) v(1)]
  obtain symbol d1 where d1: "decode_symbol c d = Inr (symbol, d1)" "symbol_ok c symbol" "dec_inv d1"
    by blast
  from Cons.IH [OF d1(3) v(2)]
  obtain symbols d' where "decode_all cs d1 = Inr (symbols, d')" "dec_inv d'"
    "list_all2 symbol_ok cs symbols" by blast
  with d1 show ?case by simp
qed

lemma normalized_bounds:
  assumes "normalized s"
  shows "low s \<le> high s" "quarter_range div 2 \<le> high s - low s + 1" "2 ^ 60 \<le> high s - low s + 1"
  using normalized_range [OF assms] by (simp_all add: quarter_range_eq)


section \<open>The near-convergence loop as the specification words it\<close>

text \<open>
  The specification gives the two assignments of the second loop as
  \<^verbatim>\<open>low = (low XOR HALF) << 1\<close> and \<^verbatim>\<open>high = ((high XOR HALF) << 1) | 1\<close>, both masked
  to 64 bits. These two definitions follow those words, to be compared with
  \<^const>\<open>underflow_body\<close>, which follows the source.
\<close>

definition spec_underflow_low :: "int \<Rightarrow> int" where
  "spec_underflow_low l = (push_bit 1 (l XOR half_range)) AND state_mask"

definition spec_underflow_high :: "int \<Rightarrow> int" where
  "spec_underflow_high h = ((push_bit 1 (h XOR half_range)) OR 1) AND state_mask"

lemma consts_num:
  "half_range = 9223372036854775808" "quarter_range = 4611686018427387904"
  "state_mask = 18446744073709551615" "full_range = 18446744073709551616"
  by (simp_all add: half_range_eq quarter_range_eq state_mask_def full_range_eq)

lemma narrow_example:
  "narrow [3, 5, 8] 1 Encoder_init =
     \<lparr>low = 6917529027641081856, high = 11529215046068469759,
      sub = \<lparr>encoded_data = [], num_underflow = 0\<rparr>\<rparr>"
  by (simp add: narrow_def Encoder_init_def sym_low_def sym_high_def consts_num)

lemma msb_example:
  "msb_loop enc_shift \<lparr>low = 6917529027641081856, high = 11529215046068469759,
      sub = \<lparr>encoded_data = [], num_underflow = 0\<rparr>\<rparr> =
     \<lparr>low = 6917529027641081856, high = 11529215046068469759,
      sub = \<lparr>encoded_data = [], num_underflow = 0\<rparr>\<rparr>"
  by (rule msb_loop_false) (simp add: consts_num)


section \<open>Claims\<close>

text \<open>
  C2 (coder closure). For every finite sequence of (table, symbol) pairs, each table
  valid (strictly increasing positive integers, total at most \<open>2^62\<close>) and each symbol
  indexing an entry of its table: encoding every pair with \<^verbatim>\<open>encode_symbol\<close> from a
  fresh \<^verbatim>\<open>Encoder\<close> raises nothing; and a \<^verbatim>\<open>Decoder\<close> built from the bits that
  \<^verbatim>\<open>get_encoded\<close> returns after \<^verbatim>\<open>finish\<close>, asked to \<^verbatim>\<open>decode_symbol\<close> with the same
  tables in the same order, raises nothing and returns exactly the symbols that were
  encoded.
\<close>

theorem coder_closure:
  assumes "list_all (\<lambda>(c, symbol). valid_cdf c \<and> symbol_ok c symbol) xs"
  shows "\<exists>e d. encode_all xs Encoder_init = Inr e \<and>
           decode_all (map fst xs) (Decoder_init (get_encoded (finish e))) = Inr (map snd xs, d)"
proof -
  from coder_sim [OF Encoder_init_ok assms]
  obtain e where e: "encode_all xs Encoder_init = Inr e" "normalized e"
    "bits_ok (encoded_data (sub e))"
    and sim: "\<And>S. tracks e S \<Longrightarrow>
       decode_all (map fst xs) (dec_of Encoder_init S) = Inr (map snd xs, dec_of e S)"
    by blast
  from sim [OF finish_tracks [OF e(2,3)]] e(1) show ?thesis
    by (auto simp add: dec_of_init)
qed

theorem coder_closure_witness:
  "list_all (\<lambda>(c, symbol). valid_cdf c \<and> symbol_ok c symbol) [([3, 5, 8], 1), ([1, 2], 0)] \<and>
   (\<exists>e d. encode_all [([3, 5, 8], 1), ([1, 2], 0)] Encoder_init = Inr e \<and>
      decode_all [[3, 5, 8], [1, 2]] (Decoder_init (get_encoded (finish e))) = Inr ([1, 0], d))"
proof -
  have h: "list_all (\<lambda>(c, symbol). valid_cdf c \<and> symbol_ok c symbol)
             [([3, 5, 8], 1), ([1, 2], 0)]"
    by (simp add: valid_cdf_def symbol_ok_def quarter_range_eq)
  from coder_closure [OF h] h show ?thesis by simp
qed

text \<open>
  C5 (interval invariant). Start from the initial state (\<open>low = 0\<close>,
  \<open>high = 2^64 - 1\<close>) and apply updates with valid tables and symbols in range. After
  every update, that is after the first \<open>n\<close> updates for every \<open>n\<close>, no exception was
  raised, \<open>low \<le> high\<close>, and \<open>high - low + 1\<close> is at least \<^verbatim>\<open>quarter_range // 2\<close>
  (which is \<open>2^61\<close>) and so at least \<open>2^60\<close>. For the decoder, built from any list of
  bits, whose updates are the ones \<^verbatim>\<open>decode_symbol\<close> makes with the symbol it decoded,
  \<open>low \<le> code \<le> high\<close> holds as well.
\<close>

theorem interval_invariant:
  assumes "list_all (\<lambda>(c, symbol). valid_cdf c \<and> symbol_ok c symbol) xs"
    and "list_all valid_cdf cs" and "bits_ok bits"
  shows "(\<exists>e. encode_all (take n xs) Encoder_init = Inr e \<and>
            low e \<le> high e \<and>
            quarter_range div 2 \<le> high e - low e + 1 \<and> 2 ^ 60 \<le> high e - low e + 1) \<and>
         (\<exists>symbols d. decode_all (take n cs) (Decoder_init bits) = Inr (symbols, d) \<and>
            low d \<le> high d \<and>
            quarter_range div 2 \<le> high d - low d + 1 \<and> 2 ^ 60 \<le> high d - low d + 1 \<and>
            low d \<le> code (sub d) \<and> code (sub d) \<le> high d)"
proof
  have "list_all (\<lambda>(c, symbol). valid_cdf c \<and> symbol_ok c symbol) (take n xs)"
    using assms(1) by (auto simp add: list_all_iff dest: in_set_takeD)
  from coder_sim [OF Encoder_init_ok this]
  obtain e where "encode_all (take n xs) Encoder_init = Inr e" "normalized e" by blast
  then show "\<exists>e. encode_all (take n xs) Encoder_init = Inr e \<and>
            low e \<le> high e \<and>
            quarter_range div 2 \<le> high e - low e + 1 \<and> 2 ^ 60 \<le> high e - low e + 1"
    using normalized_bounds [of e] by blast
next
  have "list_all valid_cdf (take n cs)"
    using assms(2) by (auto simp add: list_all_iff dest: in_set_takeD)
  from decode_all_inv [OF Decoder_init_inv [OF assms(3)] this]
  obtain symbols d where d: "decode_all (take n cs) (Decoder_init bits) = Inr (symbols, d)"
    "dec_inv d" by blast
  from d(2) have "normalized d" "low d \<le> code (sub d)" "code (sub d) \<le> high d"
    by (simp_all add: dec_inv_def code_in_def)
  with d(1) show "\<exists>symbols d. decode_all (take n cs) (Decoder_init bits) = Inr (symbols, d) \<and>
            low d \<le> high d \<and>
            quarter_range div 2 \<le> high d - low d + 1 \<and> 2 ^ 60 \<le> high d - low d + 1 \<and>
            low d \<le> code (sub d) \<and> code (sub d) \<le> high d"
    using normalized_bounds [of d] by blast
qed

theorem interval_invariant_witness:
  "list_all (\<lambda>(c, symbol). valid_cdf c \<and> symbol_ok c symbol) [([3, 5, 8], 1), ([1, 2], 0)] \<and>
   list_all valid_cdf [[3, 5, 8], [1, 2]] \<and> bits_ok [1] \<and>
   (\<exists>e. encode_all (take 1 [([3, 5, 8], 1), ([1, 2], 0)]) Encoder_init = Inr e \<and>
      low e \<le> high e \<and>
      quarter_range div 2 \<le> high e - low e + 1 \<and> 2 ^ 60 \<le> high e - low e + 1) \<and>
   (\<exists>symbols d. decode_all (take 1 [[3, 5, 8], [1, 2]]) (Decoder_init [1]) = Inr (symbols, d) \<and>
      low d \<le> high d \<and>
      quarter_range div 2 \<le> high d - low d + 1 \<and> 2 ^ 60 \<le> high d - low d + 1 \<and>
      low d \<le> code (sub d) \<and> code (sub d) \<le> high d)"
proof -
  have h: "list_all (\<lambda>(c, symbol). valid_cdf c \<and> symbol_ok c symbol)
             [([3, 5, 8], 1), ([1, 2], 0)]"
    "list_all valid_cdf [[3, 5, 8], [1, 2]]" "bits_ok [1]"
    by (simp_all add: valid_cdf_def symbol_ok_def quarter_range_eq bits_ok_def)
  from interval_invariant [OF h, of 1] h show ?thesis by blast
qed

text \<open>
  C3 (the near-convergence loop), as amended. The loop runs exactly while
  \<^verbatim>\<open>(low & ~high & quarter_range) != 0\<close>. Each iteration calls \<^verbatim>\<open>underflow()\<close> and then
  sets \<^verbatim>\<open>low\<close> to \<^verbatim>\<open>(low << 1) ^ half_range\<close> and \<^verbatim>\<open>high\<close> to
  \<^verbatim>\<open>((high ^ half_range) << 1) | half_range | 1\<close>, with no mask. In every state in which
  \<^verbatim>\<open>update\<close> reaches the loop (\<open>0 \<le> low < half_range \<le> high < full_range\<close>) and the
  condition holds, these are \<open>2 * low - half_range\<close> and \<open>2 * high - half_range + 1\<close>,
  they lie in the same ranges again, and masking them to 64 bits would change nothing.
  (The claim's formulas give \<open>2 * low\<close> and \<open>2 * high - full_range + 1\<close> there: each is
  off by \<^verbatim>\<open>half_range\<close>.)
\<close>

theorem underflow_iteration:
  assumes "straddles s"
  shows "underflow_loop u s =
           (if ((low s AND NOT (high s)) AND quarter_range) \<noteq> 0
            then underflow_loop u (underflow_body u s) else s) \<and>
         sub (underflow_body u s) = u s \<and>
         low (underflow_body u s) = (push_bit 1 (low s)) XOR half_range \<and>
         high (underflow_body u s) = ((push_bit 1 (high s XOR half_range)) OR half_range) OR 1 \<and>
         (((low s AND NOT (high s)) AND quarter_range) \<noteq> 0 \<longrightarrow>
            low (underflow_body u s) = 2 * low s - half_range \<and>
            high (underflow_body u s) = 2 * high s - half_range + 1 \<and>
            0 \<le> low (underflow_body u s) \<and>
            low (underflow_body u s) < half_range \<and>
            half_range \<le> high (underflow_body u s) \<and>
            high (underflow_body u s) < full_range \<and>
            low (underflow_body u s) AND state_mask = low (underflow_body u s) \<and>
            high (underflow_body u s) AND state_mask = high (underflow_body u s))"
proof (intro conjI impI)
  show "underflow_loop u s =
           (if ((low s AND NOT (high s)) AND quarter_range) \<noteq> 0
            then underflow_loop u (underflow_body u s) else s)"
    by (rule underflow_loop.simps)
  show "sub (underflow_body u s) = u s" by (simp add: underflow_body_def)
  show "low (underflow_body u s) = (push_bit 1 (low s)) XOR half_range"
    by (simp add: underflow_body_def)
  show "high (underflow_body u s) = ((push_bit 1 (high s XOR half_range)) OR half_range) OR 1"
    by (simp add: underflow_body_def)
next
  assume "((low s AND NOT (high s)) AND quarter_range) \<noteq> 0"
  then have c: "2 ^ 62 \<le> low s \<and> high s < 2 ^ 63 + 2 ^ 62"
    using underflow_cond_arith [OF assms] by simp
  note a = underflow_body_arith [OF assms c, of u]
  have st: "straddles (underflow_body u s)" by (rule underflow_body_straddles [OF assms c])
  show "low (underflow_body u s) = 2 * low s - half_range"
    "high (underflow_body u s) = 2 * high s - half_range + 1"
    using a by (simp_all add: half_range_eq)
  show b: "0 \<le> low (underflow_body u s)" "low (underflow_body u s) < half_range"
    "half_range \<le> high (underflow_body u s)" "high (underflow_body u s) < full_range"
    using st by (simp_all add: straddles_def)
  have "0 \<le> high (underflow_body u s)" "low (underflow_body u s) < full_range"
    using b by (simp_all add: half_range_eq full_range_eq)
  with b show "low (underflow_body u s) AND state_mask = low (underflow_body u s)"
    "high (underflow_body u s) AND state_mask = high (underflow_body u s)"
    unfolding state_mask_eq full_range_eq
    by (simp_all add: take_bit_int_eq_self flip: take_bit_eq_mask)
qed


theorem underflow_iteration_witness:
  "straddles (msb_loop enc_shift (narrow [3, 5, 8] 1 Encoder_init)) \<and>
   ((low (msb_loop enc_shift (narrow [3, 5, 8] 1 Encoder_init))
       AND NOT (high (msb_loop enc_shift (narrow [3, 5, 8] 1 Encoder_init))))
     AND quarter_range) \<noteq> 0 \<and>
   low (underflow_body enc_underflow (msb_loop enc_shift (narrow [3, 5, 8] 1 Encoder_init)))
     = 4611686018427387904 \<and>
   high (underflow_body enc_underflow (msb_loop enc_shift (narrow [3, 5, 8] 1 Encoder_init)))
     = 13835058055282163711"
proof -
  have s: "straddles (msb_loop enc_shift (narrow [3, 5, 8] 1 Encoder_init))"
    unfolding narrow_example msb_example by (simp add: straddles_def consts_num)
  have c: "((low (msb_loop enc_shift (narrow [3, 5, 8] 1 Encoder_init))
       AND NOT (high (msb_loop enc_shift (narrow [3, 5, 8] 1 Encoder_init))))
     AND quarter_range) \<noteq> 0"
    unfolding narrow_example msb_example by (simp add: consts_num)
  from underflow_iteration [OF s, of enc_underflow] c
  have "low (underflow_body enc_underflow (msb_loop enc_shift (narrow [3, 5, 8] 1 Encoder_init)))
          = 2 * low (msb_loop enc_shift (narrow [3, 5, 8] 1 Encoder_init)) - half_range"
    "high (underflow_body enc_underflow (msb_loop enc_shift (narrow [3, 5, 8] 1 Encoder_init)))
          = 2 * high (msb_loop enc_shift (narrow [3, 5, 8] 1 Encoder_init)) - half_range + 1"
    by blast+
  then show ?thesis using s c unfolding narrow_example msb_example by (simp add: consts_num)
qed

text \<open>
  The claim as stated fails in the first state a run can meet the loop in: a fresh
  encoder given the table \<open>[3, 5, 8]\<close> and the symbol 1 leaves the first loop with
  \<open>low = 3 * 2^61\<close> and \<open>high = 5 * 2^61 - 1\<close>; the condition holds, and neither
  assignment gives what the claim's formula gives.
\<close>

theorem underflow_iteration_counterexample:
  "((low (msb_loop enc_shift (narrow [3, 5, 8] 1 Encoder_init))
       AND NOT (high (msb_loop enc_shift (narrow [3, 5, 8] 1 Encoder_init))))
     AND quarter_range) \<noteq> 0 \<and>
   low (underflow_body enc_underflow (msb_loop enc_shift (narrow [3, 5, 8] 1 Encoder_init)))
     \<noteq> spec_underflow_low (low (msb_loop enc_shift (narrow [3, 5, 8] 1 Encoder_init))) \<and>
   high (underflow_body enc_underflow (msb_loop enc_shift (narrow [3, 5, 8] 1 Encoder_init)))
     \<noteq> spec_underflow_high (high (msb_loop enc_shift (narrow [3, 5, 8] 1 Encoder_init)))"
  unfolding narrow_example msb_example
  by (simp add: underflow_body_def spec_underflow_low_def spec_underflow_high_def consts_num)

end
